theory Spec2Isabelle
  imports Main "HOL-Library.Word"
begin

section \<open>The chunked relay upload of the Zipline bot\<close>

text \<open>
  The development embeds \<^verbatim>\<open>ziplinePartialUpload\<close> and \<^verbatim>\<open>sendPartialChunk\<close>
  of \<^verbatim>\<open>commands/zipline.js\<close>. The download stream, the destination server, the
  clock and random source behind the staging names, and the configuration file are the
  environment; the local variables of \<^verbatim>\<open>ziplinePartialUpload\<close> are two records
  (the re-chunker's buffers and the upload session) that the loops pass along. The download
  stream is taken to end without an error, and writing, reading and unlinking a staged file to
  succeed.
\<close>

subsection \<open>Data\<close>

type_synonym bytes = "8 word list"
type_synonym path = string

text \<open>
  What \<^verbatim>\<open>sendPartialChunk\<close> returns: the parsed JSON body, of which the caller reads
  \<^verbatim>\<open>files\<close>, \<^verbatim>\<open>partialIdentifier\<close> and \<^verbatim>\<open>partialSuccess\<close> (each possibly
  undefined), or, when the body has none of these fields (the raw text of a body that is not
  JSON, a JSON scalar), \<open>JOther\<close>.
\<close>

datatype resp =
    JObj (resp_files: "string list option")
         (resp_partialIdentifier: "string option")
         (resp_partialSuccess: "bool option")
  | JOther string

text \<open>The result of \<^verbatim>\<open>fetch\<close> on the partial-upload endpoint, its text already read.\<close>

record http_response =
  ok :: bool
  status :: nat
  parsed :: resp

datatype error =
    DownloadFailed
  | StagedFileMissing
  | FetchRejected
  | ChunkTransferError nat resp
  | PartialFailure

text \<open>The headers and the file part of one chunk request.\<close>

record request =
  authorization :: string
  range_start :: nat
  range_end :: int
  range_total :: nat
  p_filename :: string
  p_content_type :: string
  p_content_length :: nat
  p_lastchunk :: bool
  p_identifier :: "string option"
  deletes_at :: "string option"
  compression_hdr :: "string option"
  file_part :: bytes

record settings =
  expiry :: "string option"
  compression :: "string option"

text \<open>
  The argument object of \<^verbatim>\<open>ziplinePartialUpload\<close>. \<open>onProgress\<close> says whether a
  callback was passed; its calls are recorded in the session.
\<close>

record params =
  authToken :: string
  filename :: string
  contentLength :: nat
  contentType :: "string option"
  upload_settings :: settings
  onProgress :: bool

text \<open>
  The environment. \<open>chunkSizeBytes\<close> is the entry of \<^verbatim>\<open>config.json\<close>;
  \<open>fetch_ok\<close> and \<open>fetch_body\<close> are the download response and the fragments its
  body's iterator yields before it reports \<^verbatim>\<open>done\<close>; \<open>server\<close> answers a chunk
  request, given all requests of the transfer up to and including this one (\<open>None\<close>: the
  fetch rejects); \<open>tmpname k\<close> is the staging path drawn from the clock and the random
  source for the \<open>k\<close>-th staged chunk.
\<close>

record env =
  chunkSizeBytes :: "nat option"
  fetch_ok :: bool
  fetch_body :: "bytes list"
  server :: "request list \<Rightarrow> http_response option"
  tmpname :: "nat \<Rightarrow> path"

text \<open>
  The re-chunker's variables. \<open>held\<close> is an observation log, not a variable of the source:
  the number of unconsumed bytes in \<^verbatim>\<open>accumulatedChunks\<close> and \<^verbatim>\<open>buffer\<close>
  together (the lengths of the entries of the one plus the length of the other while it is in
  scope), noted after every statement that changes either. The flag marks the one observation
  taken between \<^verbatim>\<open>Buffer.concat\<close> and the reset of \<^verbatim>\<open>accumulatedChunks\<close> on the
  next line, when the buffer is a copy of what \<^verbatim>\<open>accumulatedChunks\<close> still holds.
\<close>

record rechunker =
  accumulatedChunks :: "bytes list"
  accumulatedLen :: nat
  held :: "(bool \<times> nat) list"

text \<open>
  The session's variables and the transient store \<open>fs\<close>. \<open>draws\<close> counts the staging
  names drawn. \<open>sent\<close> and \<open>progress\<close> are observation logs: the chunk requests handed to
  \<^verbatim>\<open>fetch\<close> and the calls of the progress callback, oldest first.
\<close>

record session =
  uploadedBytes :: nat
  partialIdentifier :: "string option"
  fs :: "path \<Rightarrow> bytes option"
  draws :: nat
  sent :: "request list"
  progress :: "(nat \<times> nat) list"

text \<open>How a block of statements ends: it falls through, returns from the function, or throws.\<close>

datatype 'a ctl = Normal 'a | Returned resp | Thrown error

subsection \<open>Constants and JavaScript truthiness\<close>

text \<open>\<^verbatim>\<open>const CHUNK_SIZE = config.chunkSizeBytes || 8 * 1024 * 1024\<close>: zero is falsy.\<close>

definition CHUNK_SIZE :: "env \<Rightarrow> nat" where
  "CHUNK_SIZE e =
     (case chunkSizeBytes e of
        None \<Rightarrow> 8 * 1024 * 1024
      | Some n \<Rightarrow> if n = 0 then 8 * 1024 * 1024 else n)"

text \<open>A string or null is truthy when it is a non-empty string.\<close>

definition truthy :: "string option \<Rightarrow> bool" where
  "truthy v = (case v of None \<Rightarrow> False | Some s \<Rightarrow> s \<noteq> [])"

text \<open>\<^verbatim>\<open>resp && resp.files && resp.files.length > 0\<close>\<close>

definition has_files :: "resp \<Rightarrow> bool" where
  "has_files r =
     (case r of
        JObj (Some fl) _ _ \<Rightarrow> fl \<noteq> []
      | _ \<Rightarrow> False)"

text \<open>\<^verbatim>\<open>resp && resp.partialIdentifier\<close>, and the identifier it then yields.\<close>

definition assigned_identifier :: "resp \<Rightarrow> string option" where
  "assigned_identifier r =
     (case r of
        JObj _ pid _ \<Rightarrow> if truthy pid then pid else None
      | JOther _ \<Rightarrow> None)"

text \<open>\<^verbatim>\<open>resp && resp.partialSuccess === false\<close>\<close>

definition partial_failed :: "resp \<Rightarrow> bool" where
  "partial_failed r =
     (case r of
        JObj _ _ (Some b) \<Rightarrow> \<not> b
      | _ \<Rightarrow> False)"

subsection \<open>sendPartialChunk\<close>

text \<open>
  The caller always passes \<^verbatim>\<open>filePath\<close> and never \<^verbatim>\<open>chunkBuffer\<close>, so the file
  part and \<^verbatim>\<open>chunkLen\<close> are read from the staged file; \<^verbatim>\<open>statSync\<close> throws when
  it is missing. A response that is not \<^verbatim>\<open>ok\<close> throws with its status and body.
\<close>

definition sendPartialChunk ::
  "env \<Rightarrow> string \<Rightarrow> path \<Rightarrow> string \<Rightarrow> string option \<Rightarrow> nat \<Rightarrow> string option \<Rightarrow> bool
     \<Rightarrow> settings \<Rightarrow> nat \<Rightarrow> session \<Rightarrow> (error + resp) \<times> session" where
  "sendPartialChunk e tok filePath fname ctype clen pid isLast sett uploaded s =
     (case fs s filePath of
        None \<Rightarrow> (Inl StagedFileMissing, s)
      | Some content \<Rightarrow>
          let chunkLen = length content;
              headers = \<lparr> authorization = tok,
                          range_start = uploaded,
                          range_end = int uploaded + int chunkLen - 1,
                          range_total = clen,
                          p_filename = fname,
                          p_content_type =
                            (if truthy ctype then the ctype else ''application/octet-stream''),
                          p_content_length = clen,
                          p_lastchunk = isLast,
                          p_identifier = (if truthy pid then pid else None),
                          deletes_at = (if truthy (expiry sett) then expiry sett else None),
                          compression_hdr =
                            (if truthy (compression sett) then compression sett else None),
                          file_part = content \<rparr>;
              s1 = s\<lparr> sent := sent s @ [headers] \<rparr>
          in (case server e (sent s1) of
                None \<Rightarrow> (Inl FetchRejected, s1)
              | Some res \<Rightarrow>
                  if \<not> ok res then (Inl (ChunkTransferError (status res) (parsed res)), s1)
                  else (Inr (parsed res), s1)))"

subsection \<open>One chunk attempt: the body of the slice loop from staging to the progress call\<close>

text \<open>The \<^verbatim>\<open>finally\<close> block: \<^verbatim>\<open>if (fs.existsSync(p)) fs.unlinkSync(p)\<close>.\<close>

definition release :: "path \<Rightarrow> session \<Rightarrow> session" where
  "release p s = (if fs s p \<noteq> None then s\<lparr> fs := (fs s)(p := None) \<rparr> else s)"

text \<open>
  \<open>dn\<close> is \<^verbatim>\<open>done\<close>, \<open>nacc\<close> is \<^verbatim>\<open>accumulatedChunks.length\<close>, \<open>buffer\<close> is the
  remainder after \<open>sending\<close> has been sliced off.
\<close>

definition attempt ::
  "env \<Rightarrow> params \<Rightarrow> bool \<Rightarrow> nat \<Rightarrow> bytes \<Rightarrow> bytes \<Rightarrow> session \<Rightarrow> unit ctl \<times> session" where
  "attempt e prm dn nacc buffer sending s =
     (let tmpChunkPath = tmpname e (draws s);
          s1 = s\<lparr> draws := draws s + 1, fs := (fs s)(tmpChunkPath \<mapsto> sending) \<rparr>;
          isRefEmpty = (length buffer = 0 \<and> nacc = 0 \<and> dn);
          effectiveContentLength =
            (if isRefEmpty then uploadedBytes s1 + length sending else contentLength prm);
          isLast = (uploadedBytes s1 + length sending \<ge> effectiveContentLength)
      in (case sendPartialChunk e (authToken prm) tmpChunkPath (filename prm) (contentType prm)
                 effectiveContentLength (partialIdentifier s1) isLast (upload_settings prm)
                 (uploadedBytes s1) s1 of
            (Inl err, s2) \<Rightarrow> (Thrown err, release tmpChunkPath s2)
          | (Inr r, s2) \<Rightarrow>
              if has_files r
              then (Returned r, release tmpChunkPath (s2\<lparr> fs := (fs s2)(tmpChunkPath := None) \<rparr>))
              else
                let s3 = (if assigned_identifier r \<noteq> None
                          then s2\<lparr> partialIdentifier := assigned_identifier r \<rparr> else s2)
                in if partial_failed r then (Thrown PartialFailure, release tmpChunkPath s3)
                   else
                     let s4 = release tmpChunkPath s3;
                         s5 = s4\<lparr> uploadedBytes := uploadedBytes s4 + length sending \<rparr>;
                         s6 = (if onProgress prm
                               then s5\<lparr> progress := progress s5 @ [(uploadedBytes s5, contentLength prm)] \<rparr>
                               else s5)
                     in (Normal (), s6)))"

subsection \<open>The loops of ziplinePartialUpload\<close>

definition note_held :: "bytes \<Rightarrow> rechunker \<Rightarrow> rechunker" where
  "note_held buffer rc =
     rc\<lparr> held := held rc @ [(False, length (concat (accumulatedChunks rc)) + length buffer)] \<rparr>"

definition note_copied :: "bytes \<Rightarrow> rechunker \<Rightarrow> rechunker" where
  "note_copied buffer rc =
     rc\<lparr> held := held rc @ [(True, length (concat (accumulatedChunks rc)) + length buffer)] \<rparr>"

definition push :: "bytes \<Rightarrow> rechunker \<Rightarrow> rechunker" where
  "push b rc = rc\<lparr> accumulatedChunks := accumulatedChunks rc @ [b],
                   accumulatedLen := accumulatedLen rc + length b \<rparr>"

text \<open>
  The innermost loop, which slices chunks out of the consolidated buffer. It falls through
  with the buffer it leaves.
\<close>

function slice_loop ::
  "env \<Rightarrow> params \<Rightarrow> bool \<Rightarrow> bytes \<Rightarrow> rechunker \<Rightarrow> session \<Rightarrow> bytes ctl \<times> rechunker \<times> session" where
  "slice_loop e prm dn buffer rc s =
     (if length buffer \<ge> CHUNK_SIZE e \<or> (dn \<and> length buffer > 0) then
        if \<not> dn \<and> length buffer < CHUNK_SIZE e
        then (Normal [], note_held [] (note_held buffer (push buffer rc)), s)
        else
          let amountToSend = min (length buffer) (CHUNK_SIZE e);
              sending = take amountToSend buffer;
              remainder = drop amountToSend buffer
          in (case attempt e prm dn (length (accumulatedChunks rc)) remainder sending s of
                (Normal u, s') \<Rightarrow> slice_loop e prm dn remainder (note_held remainder rc) s'
              | (Returned r, s') \<Rightarrow> (Returned r, note_held remainder rc, s')
              | (Thrown err, s') \<Rightarrow> (Thrown err, note_held remainder rc, s'))
      else (Normal buffer, rc, s))"
  by pat_completeness auto

lemma CHUNK_SIZE_pos: "0 < CHUNK_SIZE e"
  by (simp add: CHUNK_SIZE_def split: option.splits)

lemma CHUNK_SIZE_nonzero: "CHUNK_SIZE e \<noteq> 0"
  using CHUNK_SIZE_pos [of e] by simp

termination slice_loop
  by (relation "measure (\<lambda>(e, prm, dn, buffer, rc, s). length buffer)")
     (auto simp: min_def CHUNK_SIZE_pos CHUNK_SIZE_nonzero intro!: diff_less)

declare slice_loop.simps [simp del]

text \<open>
  The middle loop: consolidate what has accumulated, slice it, and keep what the slice loop
  leaves. The buffers are observed after \<^verbatim>\<open>Buffer.concat\<close>, when the copy and the
  accumulated fragments both exist, again after the reset, and after the push of what is left,
  while the working buffer is still in scope and once it is not.
\<close>

function mid_loop ::
  "env \<Rightarrow> params \<Rightarrow> bool \<Rightarrow> rechunker \<Rightarrow> session \<Rightarrow> unit ctl \<times> rechunker \<times> session" where
  "mid_loop e prm dn rc s =
     (if accumulatedLen rc \<ge> CHUNK_SIZE e \<or> (dn \<and> accumulatedLen rc > 0) then
        let buffer = concat (accumulatedChunks rc);
            rc1 = note_held buffer
                    ((note_copied buffer rc)\<lparr> accumulatedChunks := [], accumulatedLen := 0 \<rparr>)
        in (case slice_loop e prm dn buffer rc1 s of
              (Normal buffer', rc2, s') \<Rightarrow>
                mid_loop e prm dn
                  (if length buffer' > 0 then note_held [] (note_held buffer' (push buffer' rc2))
                   else rc2) s'
            | (Returned r, rc2, s') \<Rightarrow> (Returned r, rc2, s')
            | (Thrown err, rc2, s') \<Rightarrow> (Thrown err, rc2, s'))
      else (Normal (), rc, s))"
  by pat_completeness auto

lemma note_held_fields:
  "accumulatedChunks (note_held b rc) = accumulatedChunks rc"
  "accumulatedLen (note_held b rc) = accumulatedLen rc"
  "accumulatedChunks (note_copied b rc) = accumulatedChunks rc"
  "accumulatedLen (note_copied b rc) = accumulatedLen rc"
  by (simp_all add: note_held_def note_copied_def)

lemma take_drop_min:
  "take (min (length b) n) b = take n b" "drop (min (length b) n) b = drop n b"
  by (simp_all add: min_def)

lemma slice_loop_exit:
  assumes "\<not> (CHUNK_SIZE e \<le> length buffer \<or> (dn \<and> 0 < length buffer))"
  shows "slice_loop e prm dn buffer rc s = (Normal buffer, rc, s)"
  by (subst slice_loop.simps) (simp only: if_not_P [OF assms])

lemma slice_loop_step:
  assumes "CHUNK_SIZE e \<le> length buffer \<or> (dn \<and> 0 < length buffer)"
  shows "slice_loop e prm dn buffer rc s =
          (case attempt e prm dn (length (accumulatedChunks rc))
                  (drop (CHUNK_SIZE e) buffer) (take (CHUNK_SIZE e) buffer) s of
             (Normal u, s') \<Rightarrow>
               slice_loop e prm dn (drop (CHUNK_SIZE e) buffer)
                 (note_held (drop (CHUNK_SIZE e) buffer) rc) s'
           | (Returned r, s') \<Rightarrow> (Returned r, note_held (drop (CHUNK_SIZE e) buffer) rc, s')
           | (Thrown err, s') \<Rightarrow> (Thrown err, note_held (drop (CHUNK_SIZE e) buffer) rc, s'))"
proof -
  from assms have live: "\<not> (\<not> dn \<and> length buffer < CHUNK_SIZE e)" by auto
  show ?thesis
    by (subst slice_loop.simps)
       (simp only: if_P [OF assms] if_not_P [OF live] Let_def take_drop_min)
qed

lemma slice_loop_Normal:
  "slice_loop e prm dn buffer rc s = (Normal b', rc', s') \<Longrightarrow>
     accumulatedLen rc' = accumulatedLen rc \<and> accumulatedChunks rc' = accumulatedChunks rc
     \<and> length b' < CHUNK_SIZE e \<and> (if dn then b' = [] else True)"
proof (induction e prm dn buffer rc s rule: slice_loop.induct)
  case (1 e prm dn buffer rc s)
  show ?case
  proof (cases "CHUNK_SIZE e \<le> length buffer \<or> (dn \<and> 0 < length buffer)")
    case False
    with "1.prems" show ?thesis
      by (auto simp: slice_loop_exit)
  next
    case True
    then have live: "\<not> (\<not> dn \<and> length buffer < CHUNK_SIZE e)" by auto
    let ?n = "min (length buffer) (CHUNK_SIZE e)"
    obtain c s1 where att:
      "attempt e prm dn (length (accumulatedChunks rc)) (drop (CHUNK_SIZE e) buffer) (take (CHUNK_SIZE e) buffer) s = (c, s1)"
      by (cases "attempt e prm dn (length (accumulatedChunks rc)) (drop (CHUNK_SIZE e) buffer) (take (CHUNK_SIZE e) buffer) s")
    show ?thesis
    proof (cases c)
      case (Normal u)
      with "1.prems" att
      have rec: "slice_loop e prm dn (drop ?n buffer) (note_held (drop ?n buffer) rc) s1 = (Normal b', rc', s')"
        by (simp add: slice_loop_step [OF True] take_drop_min)
      have att': "(Normal u, s1) = attempt e prm dn (length (accumulatedChunks rc)) (drop ?n buffer) (take ?n buffer) s"
        using att Normal by (simp add: take_drop_min)
      from "1.IH" [OF True live refl refl refl att' refl rec]
      show ?thesis by (simp add: note_held_fields)
    next
      case (Returned r)
      with "1.prems" att show ?thesis
        by (simp add: slice_loop_step [OF True])
    next
      case (Thrown err)
      with "1.prems" att show ?thesis
        by (simp add: slice_loop_step [OF True])
    qed
  qed
qed

termination mid_loop
proof (relation "measure (\<lambda>(e, prm, dn, rc, s).
          if accumulatedLen rc \<ge> CHUNK_SIZE e \<or> (dn \<and> accumulatedLen rc > 0) then 1 else 0)")
  show "wf (measure (\<lambda>(e, prm, dn, rc, s).
          if accumulatedLen rc \<ge> CHUNK_SIZE e \<or> (dn \<and> accumulatedLen rc > 0) then 1 else (0::nat)))"
    by simp
next
  fix e prm dn rc s buffer rc1 x xa b' y rc2 s'
  assume c: "CHUNK_SIZE e \<le> accumulatedLen rc \<or> dn \<and> 0 < accumulatedLen rc"
    and b: "buffer = concat (accumulatedChunks rc)"
    and r: "rc1 = note_held buffer
                    ((note_copied buffer rc)\<lparr>accumulatedChunks := [], accumulatedLen := 0\<rparr>)"
    and x: "(x, xa) = slice_loop e prm dn buffer rc1 s" "x = Normal b'" "(rc2, s') = xa"
  from x have "slice_loop e prm dn buffer rc1 s = (Normal b', rc2, s')" by (metis)
  from slice_loop_Normal [OF this] r
  have "accumulatedLen rc2 = 0" "length b' < CHUNK_SIZE e" "dn \<Longrightarrow> b' = []"
    by (auto simp: note_held_fields split: if_splits)
  with c show "((e, prm, dn,
                 if 0 < length b' then note_held [] (note_held b' (push b' rc2)) else rc2, s'),
          e, prm, dn, rc, s) \<in> measure (\<lambda>(e, prm, dn, rc, s).
          if accumulatedLen rc \<ge> CHUNK_SIZE e \<or> (dn \<and> accumulatedLen rc > 0) then 1 else 0)"
    by (auto simp: note_held_fields push_def)
qed

declare mid_loop.simps [simp del]

text \<open>
  The outer loop over \<^verbatim>\<open>iterator.next()\<close>: one round for every fragment, with
  \<^verbatim>\<open>done\<close> false, and a last round with no value and \<^verbatim>\<open>done\<close> true, after
  which the loop breaks.
\<close>

fun outer_loop ::
  "env \<Rightarrow> params \<Rightarrow> bytes list \<Rightarrow> rechunker \<Rightarrow> session \<Rightarrow> unit ctl \<times> rechunker \<times> session" where
  "outer_loop e prm [] rc s = mid_loop e prm True rc s"
| "outer_loop e prm (v # rest) rc s =
     (case mid_loop e prm False (note_held [] (push v rc)) s of
        (Normal u, rc', s') \<Rightarrow> outer_loop e prm rest rc' s'
      | (Returned r, rc', s') \<Rightarrow> (Returned r, rc', s')
      | (Thrown err, rc', s') \<Rightarrow> (Thrown err, rc', s'))"

definition rechunker0 :: rechunker where
  "rechunker0 = \<lparr> accumulatedChunks = [], accumulatedLen = 0, held = [] \<rparr>"

definition session0 :: "(path \<Rightarrow> bytes option) \<Rightarrow> session" where
  "session0 disk = \<lparr> uploadedBytes = 0, partialIdentifier = None, fs = disk, draws = 0,
                      sent = [], progress = [] \<rparr>"

text \<open>
  The whole function, started on the transient store \<open>disk\<close>: \<open>Inl\<close> is the error it
  throws, \<open>Inr\<close> the value it returns. The final re-chunker and session come with either.
\<close>

definition ziplinePartialUpload ::
  "env \<Rightarrow> params \<Rightarrow> (path \<Rightarrow> bytes option) \<Rightarrow> (error + resp) \<times> rechunker \<times> session" where
  "ziplinePartialUpload e prm disk =
     (if \<not> fetch_ok e then (Inl DownloadFailed, rechunker0, session0 disk)
      else
        (case outer_loop e prm (fetch_body e) rechunker0 (session0 disk) of
           (Normal u, rc, s) \<Rightarrow> (Inr (JObj None None (Some True)), rc, s)
         | (Returned r, rc, s) \<Rightarrow> (Inr r, rc, s)
         | (Thrown err, rc, s) \<Rightarrow> (Inl err, rc, s)))"

subsection \<open>Concrete transfers\<close>

text \<open>
  A server that accepts every chunk and assigns the session \<^verbatim>\<open>s1\<close>, staging names
  numbered by draw, and a chunk size of two bytes.
\<close>

definition accepting :: "request list \<Rightarrow> http_response option" where
  "accepting h = Some \<lparr> ok = True, status = 200, parsed = JObj None (Some ''s1'') None \<rparr>"

definition numbered :: "nat \<Rightarrow> path" where
  "numbered k = ''tmp_chunk_'' @ replicate k (CHR ''x'')"

definition relay :: "bytes list \<Rightarrow> (request list \<Rightarrow> http_response option) \<Rightarrow> env" where
  "relay frags srv =
     \<lparr> chunkSizeBytes = Some 2, fetch_ok = True, fetch_body = frags, server = srv,
       tmpname = numbered \<rparr>"

definition declared :: "nat \<Rightarrow> params" where
  "declared n =
     \<lparr> authToken = ''token'', filename = ''a.bin'', contentLength = n, contentType = None,
       upload_settings = \<lparr> expiry = None, compression = None \<rparr>, onProgress = True \<rparr>"

definition requests :: "(error + resp) \<times> rechunker \<times> session \<Rightarrow> request list" where
  "requests out = sent (snd (snd out))"

subsection \<open>The transfer as a plan of chunks\<close>

text \<open>
  The session sees the re-chunker only through the chunks it hands over and, for each, whether
  the buffers are empty and the stream done after it. \<open>send_all\<close> runs the chunk attempts
  of such a plan in order and stops at the first that returns or throws; \<open>slices\<close> and
  \<open>leftover\<close> are what the slice loop cuts from a buffer and what it leaves.
\<close>

fun send_all :: "env \<Rightarrow> params \<Rightarrow> (bytes \<times> bool) list \<Rightarrow> session \<Rightarrow> unit ctl \<times> session" where
  "send_all e prm [] s = (Normal (), s)"
| "send_all e prm ((x, f) # plan) s =
     (case attempt e prm f 0 [] x s of
        (Normal u, s') \<Rightarrow> send_all e prm plan s'
      | (Returned r, s') \<Rightarrow> (Returned r, s')
      | (Thrown err, s') \<Rightarrow> (Thrown err, s'))"

function slices :: "nat \<Rightarrow> bool \<Rightarrow> bytes \<Rightarrow> (bytes \<times> bool) list" where
  "slices c dn b =
     (if 0 < c \<and> (c \<le> length b \<or> (dn \<and> 0 < length b))
      then (take c b, dn \<and> drop c b = []) # slices c dn (drop c b)
      else [])"
  by pat_completeness auto
termination
  by (relation "measure (\<lambda>(c, dn, b). length b)") auto

function leftover :: "nat \<Rightarrow> bool \<Rightarrow> bytes \<Rightarrow> bytes" where
  "leftover c dn b =
     (if 0 < c \<and> (c \<le> length b \<or> (dn \<and> 0 < length b))
      then leftover c dn (drop c b)
      else b)"
  by pat_completeness auto
termination
  by (relation "measure (\<lambda>(c, dn, b). length b)") auto

declare slices.simps [simp del] leftover.simps [simp del]

fun plan_outer :: "nat \<Rightarrow> bytes \<Rightarrow> bytes list \<Rightarrow> (bytes \<times> bool) list" where
  "plan_outer c buf [] = slices c True buf"
| "plan_outer c buf (v # rest) =
     slices c False (buf @ v) @ plan_outer c (leftover c False (buf @ v)) rest"

lemma slices_exit:
  "\<not> (c \<le> length b \<or> (dn \<and> 0 < length b)) \<Longrightarrow> slices c dn b = []"
  by (subst slices.simps) auto

lemma slices_step:
  "0 < c \<Longrightarrow> c \<le> length b \<or> (dn \<and> 0 < length b) \<Longrightarrow>
     slices c dn b = (take c b, dn \<and> drop c b = []) # slices c dn (drop c b)"
  by (subst slices.simps) auto

lemma leftover_exit:
  "\<not> (c \<le> length b \<or> (dn \<and> 0 < length b)) \<Longrightarrow> leftover c dn b = b"
  by (subst leftover.simps) auto

lemma leftover_step:
  "0 < c \<Longrightarrow> c \<le> length b \<or> (dn \<and> 0 < length b) \<Longrightarrow>
     leftover c dn b = leftover c dn (drop c b)"
  by (subst leftover.simps) auto

definition strip :: "'a ctl \<times> rechunker \<times> session \<Rightarrow> unit ctl \<times> session" where
  "strip out =
     (case out of
        (Normal x, rc, s) \<Rightarrow> (Normal (), s)
      | (Returned r, rc, s) \<Rightarrow> (Returned r, s)
      | (Thrown err, rc, s) \<Rightarrow> (Thrown err, s))"

lemma strip_simps:
  "strip (Normal x, rc, s) = (Normal (), s)"
  "strip (Returned r, rc, s) = (Returned r, s)"
  "strip (Thrown err, rc, s) = (Thrown err, s)"
  by (simp_all add: strip_def)

lemma attempt_flag:
  "(b = [] \<and> nacc = 0 \<and> dn) = f \<Longrightarrow> attempt e prm dn nacc b x s = attempt e prm f 0 [] x s"
  by (auto simp: attempt_def)

lemma slice_loop_plan:
  "accumulatedChunks rc = [] \<Longrightarrow>
     strip (slice_loop e prm dn buffer rc s) = send_all e prm (slices (CHUNK_SIZE e) dn buffer) s"
proof (induction e prm dn buffer rc s rule: slice_loop.induct)
  case (1 e prm dn buffer rc s)
  let ?C = "CHUNK_SIZE e"
  show ?case
  proof (cases "?C \<le> length buffer \<or> (dn \<and> 0 < length buffer)")
    case False
    then show ?thesis
      by (simp only: slice_loop_exit [OF False] slices_exit [OF False] strip_simps send_all.simps)
  next
    case True
    then have live: "\<not> (\<not> dn \<and> length buffer < ?C)" by auto
    let ?n = "min (length buffer) ?C"
    let ?f = "dn \<and> drop ?C buffer = []"
    have sl: "slices ?C dn buffer = (take ?C buffer, ?f) # slices ?C dn (drop ?C buffer)"
      by (rule slices_step [OF CHUNK_SIZE_pos True])
    have fl: "attempt e prm dn (length (accumulatedChunks rc)) (drop ?C buffer) (take ?C buffer) s
              = attempt e prm ?f 0 [] (take ?C buffer) s"
      by (rule attempt_flag) (use "1.prems" in auto)
    obtain c s1 where att: "attempt e prm ?f 0 [] (take ?C buffer) s = (c, s1)"
      by (cases "attempt e prm ?f 0 [] (take ?C buffer) s")
    show ?thesis
    proof (cases c)
      case (Normal u)
      have att': "(Normal u, s1) = attempt e prm dn (length (accumulatedChunks rc)) (drop ?n buffer) (take ?n buffer) s"
        using att fl Normal by (simp add: take_drop_min)
      have "accumulatedChunks (note_held (drop ?n buffer) rc) = []"
        using "1.prems" by (simp add: note_held_fields)
      from "1.IH" [OF True live refl refl refl att' refl this]
      show ?thesis
        using att fl Normal by (simp add: slice_loop_step [OF True] sl take_drop_min)
    next
      case (Returned r)
      then show ?thesis
        using att fl by (simp add: slice_loop_step [OF True] sl strip_simps)
    next
      case (Thrown err)
      then show ?thesis
        using att fl by (simp add: slice_loop_step [OF True] sl strip_simps)
    qed
  qed
qed

lemma slice_loop_leftover:
  "slice_loop e prm dn buffer rc s = (Normal b', rc', s') \<Longrightarrow>
     b' = leftover (CHUNK_SIZE e) dn buffer"
proof (induction e prm dn buffer rc s rule: slice_loop.induct)
  case (1 e prm dn buffer rc s)
  let ?C = "CHUNK_SIZE e"
  show ?case
  proof (cases "?C \<le> length buffer \<or> (dn \<and> 0 < length buffer)")
    case False
    from "1.prems" have "b' = buffer"
      by (simp add: slice_loop_exit [OF False])
    then show ?thesis
      by (simp only: leftover_exit [OF False])
  next
    case True
    then have live: "\<not> (\<not> dn \<and> length buffer < ?C)" by auto
    let ?n = "min (length buffer) ?C"
    have lo: "leftover ?C dn buffer = leftover ?C dn (drop ?C buffer)"
      by (rule leftover_step [OF CHUNK_SIZE_pos True])
    obtain c s1 where att:
      "attempt e prm dn (length (accumulatedChunks rc)) (drop ?C buffer) (take ?C buffer) s = (c, s1)"
      by (cases "attempt e prm dn (length (accumulatedChunks rc)) (drop ?C buffer) (take ?C buffer) s")
    show ?thesis
    proof (cases c)
      case (Normal u)
      with "1.prems" att
      have rec: "slice_loop e prm dn (drop ?n buffer) (note_held (drop ?n buffer) rc) s1 = (Normal b', rc', s')"
        by (simp add: slice_loop_step [OF True] take_drop_min)
      have att': "(Normal u, s1) = attempt e prm dn (length (accumulatedChunks rc)) (drop ?n buffer) (take ?n buffer) s"
        using att Normal by (simp add: take_drop_min)
      from "1.IH" [OF True live refl refl refl att' refl rec]
      show ?thesis by (simp add: lo take_drop_min)
    next
      case (Returned r)
      with "1.prems" att show ?thesis
        by (simp add: slice_loop_step [OF True])
    next
      case (Thrown err)
      with "1.prems" att show ?thesis
        by (simp add: slice_loop_step [OF True])
    qed
  qed
qed

definition rc_ok :: "rechunker \<Rightarrow> bool" where
  "rc_ok rc = (accumulatedLen rc = length (concat (accumulatedChunks rc)))"

lemma mid_loop_exit:
  "\<not> (CHUNK_SIZE e \<le> accumulatedLen rc \<or> (dn \<and> 0 < accumulatedLen rc)) \<Longrightarrow>
     mid_loop e prm dn rc s = (Normal (), rc, s)"
  by (subst mid_loop.simps) auto

lemma mid_loop_once:
  assumes "CHUNK_SIZE e \<le> accumulatedLen rc \<or> (dn \<and> 0 < accumulatedLen rc)"
  shows "mid_loop e prm dn rc s =
          (case slice_loop e prm dn (concat (accumulatedChunks rc))
                  (note_held (concat (accumulatedChunks rc))
                     ((note_copied (concat (accumulatedChunks rc)) rc)
                        \<lparr> accumulatedChunks := [], accumulatedLen := 0 \<rparr>)) s of
             (Normal b', rc2, s') \<Rightarrow>
               (Normal (),
                (if 0 < length b' then note_held [] (note_held b' (push b' rc2)) else rc2), s')
           | (Returned r, rc2, s') \<Rightarrow> (Returned r, rc2, s')
           | (Thrown err, rc2, s') \<Rightarrow> (Thrown err, rc2, s'))"
proof -
  let ?b = "concat (accumulatedChunks rc)"
  let ?rc1 = "note_held ?b ((note_copied ?b rc)\<lparr> accumulatedChunks := [], accumulatedLen := 0 \<rparr>)"
  obtain c rc2 s' where sl: "slice_loop e prm dn ?b ?rc1 s = (c, rc2, s')"
    by (cases "slice_loop e prm dn ?b ?rc1 s")
  show ?thesis
  proof (cases c)
    case (Normal b')
    let ?rc3 = "if 0 < length b' then note_held [] (note_held b' (push b' rc2)) else rc2"
    from slice_loop_Normal [OF sl [unfolded Normal]]
    have "accumulatedLen rc2 = 0" "length b' < CHUNK_SIZE e" "dn \<Longrightarrow> b' = []"
      by (auto simp: note_held_fields split: if_splits)
    then have "\<not> (CHUNK_SIZE e \<le> accumulatedLen ?rc3 \<or> (dn \<and> 0 < accumulatedLen ?rc3))"
      by (auto simp: note_held_fields push_def)
    from mid_loop_exit [OF this] sl Normal show ?thesis
      by (subst mid_loop.simps) (simp add: assms Let_def)
  next
    case (Returned r)
    with sl show ?thesis
      by (subst mid_loop.simps) (simp add: assms Let_def)
  next
    case (Thrown err)
    with sl show ?thesis
      by (subst mid_loop.simps) (simp add: assms Let_def)
  qed
qed

lemma mid_loop_plan:
  assumes "rc_ok rc"
  shows "strip (mid_loop e prm dn rc s) =
           send_all e prm (slices (CHUNK_SIZE e) dn (concat (accumulatedChunks rc))) s"
proof (cases "CHUNK_SIZE e \<le> accumulatedLen rc \<or> (dn \<and> 0 < accumulatedLen rc)")
  case False
  then have "\<not> (CHUNK_SIZE e \<le> length (concat (accumulatedChunks rc))
               \<or> (dn \<and> 0 < length (concat (accumulatedChunks rc))))"
    using assms by (simp add: rc_ok_def)
  from slices_exit [OF this] show ?thesis
    by (simp add: mid_loop_exit [OF False] strip_simps)
next
  case True
  let ?b = "concat (accumulatedChunks rc)"
  let ?rc1 = "note_held ?b ((note_copied ?b rc)\<lparr> accumulatedChunks := [], accumulatedLen := 0 \<rparr>)"
  have "accumulatedChunks ?rc1 = []" by (simp add: note_held_fields)
  from slice_loop_plan [OF this, of e prm dn ?b s]
  show ?thesis
    by (simp add: mid_loop_once [OF True] strip_def split: prod.splits ctl.splits)
qed

lemma mid_loop_Normal:
  assumes "rc_ok rc" and "mid_loop e prm dn rc s = (Normal u, rc', s')"
  shows "rc_ok rc' \<and> concat (accumulatedChunks rc') = leftover (CHUNK_SIZE e) dn (concat (accumulatedChunks rc))
         \<and> accumulatedLen rc' < CHUNK_SIZE e"
proof (cases "CHUNK_SIZE e \<le> accumulatedLen rc \<or> (dn \<and> 0 < accumulatedLen rc)")
  case False
  then have ex: "\<not> (CHUNK_SIZE e \<le> length (concat (accumulatedChunks rc))
               \<or> (dn \<and> 0 < length (concat (accumulatedChunks rc))))"
    using assms(1) by (simp add: rc_ok_def)
  from assms(2) have "rc' = rc" by (simp add: mid_loop_exit [OF False])
  with assms(1) False show ?thesis
    by (auto simp: leftover_exit [OF ex])
next
  case True
  let ?b = "concat (accumulatedChunks rc)"
  let ?rc1 = "note_held ?b ((note_copied ?b rc)\<lparr> accumulatedChunks := [], accumulatedLen := 0 \<rparr>)"
  from assms(2) obtain b' rc2 where sl: "slice_loop e prm dn ?b ?rc1 s = (Normal b', rc2, s')"
    and rc': "rc' = (if 0 < length b' then note_held [] (note_held b' (push b' rc2)) else rc2)"
    by (auto simp: mid_loop_once [OF True] split: prod.splits ctl.splits)
  from slice_loop_Normal [OF sl] have f: "accumulatedLen rc2 = 0" "accumulatedChunks rc2 = []"
    "length b' < CHUNK_SIZE e"
    by (auto simp: note_held_fields)
  from slice_loop_leftover [OF sl] have "b' = leftover (CHUNK_SIZE e) dn ?b" .
  with f rc' show ?thesis
    by (auto simp: rc_ok_def note_held_fields push_def)
qed

lemma send_all_append:
  "send_all e prm (xs @ ys) s =
     (case send_all e prm xs s of
        (Normal u, s') \<Rightarrow> send_all e prm ys s'
      | (Returned r, s') \<Rightarrow> (Returned r, s')
      | (Thrown err, s') \<Rightarrow> (Thrown err, s'))"
proof (induction xs arbitrary: s)
  case Nil
  show ?case by simp
next
  case (Cons a xs)
  obtain x f where a: "a = (x, f)" by (cases a)
  show ?case
    by (simp add: a Cons.IH split: prod.splits ctl.splits)
qed

lemma push_ok: "rc_ok rc \<Longrightarrow> rc_ok (note_held b (push v rc))"
  by (simp add: rc_ok_def note_held_def push_def)

lemma push_concat: "concat (accumulatedChunks (note_held b (push v rc))) = concat (accumulatedChunks rc) @ v"
  by (simp add: note_held_def push_def)

lemma outer_loop_plan:
  "rc_ok rc \<Longrightarrow>
     strip (outer_loop e prm frags rc s) =
       send_all e prm (plan_outer (CHUNK_SIZE e) (concat (accumulatedChunks rc)) frags) s"
proof (induction frags arbitrary: rc s)
  case Nil
  then show ?case by (simp add: mid_loop_plan)
next
  case (Cons v rest)
  let ?rc1 = "note_held [] (push v rc)"
  have ok1: "rc_ok ?rc1" using Cons.prems by (rule push_ok)
  obtain c rc2 s2 where ml: "mid_loop e prm False ?rc1 s = (c, rc2, s2)"
    by (cases "mid_loop e prm False ?rc1 s")
  from mid_loop_plan [OF ok1, of e prm False s] ml
  have sa: "send_all e prm (slices (CHUNK_SIZE e) False (concat (accumulatedChunks rc) @ v)) s
              = strip (c, rc2, s2)"
    by (simp add: push_concat)
  show ?case
  proof (cases c)
    case (Normal u)
    from mid_loop_Normal [OF ok1 ml [unfolded Normal]]
    have "rc_ok rc2" and
      lo: "concat (accumulatedChunks rc2) = leftover (CHUNK_SIZE e) False (concat (accumulatedChunks rc) @ v)"
      by (simp_all add: push_concat)
    from Cons.IH [OF \<open>rc_ok rc2\<close>, of s2] show ?thesis
      by (simp add: ml Normal send_all_append sa strip_simps lo)
  next
    case (Returned r)
    then show ?thesis
      by (simp add: ml send_all_append sa strip_simps)
  next
    case (Thrown err)
    then show ?thesis
      by (simp add: ml send_all_append sa strip_simps)
  qed
qed

definition chunk_plan :: "env \<Rightarrow> (bytes \<times> bool) list" where
  "chunk_plan e = plan_outer (CHUNK_SIZE e) [] (fetch_body e)"

fun finish :: "unit ctl \<Rightarrow> error + resp" where
  "finish (Normal u) = Inr (JObj None None (Some True))"
| "finish (Returned r) = Inr r"
| "finish (Thrown err) = Inl err"

lemma upload_as_plan:
  assumes "fetch_ok e"
  obtains c where "send_all e prm (chunk_plan e) (session0 disk) = (c, snd (snd (ziplinePartialUpload e prm disk)))"
    and "fst (ziplinePartialUpload e prm disk) = finish c"
proof -
  have ok0: "rc_ok rechunker0" by (simp add: rc_ok_def rechunker0_def)
  obtain c0 rc s where ol: "outer_loop e prm (fetch_body e) rechunker0 (session0 disk) = (c0, rc, s)"
    by (cases "outer_loop e prm (fetch_body e) rechunker0 (session0 disk)")
  from outer_loop_plan [OF ok0, of e prm "fetch_body e" "session0 disk"] ol
  have sa: "send_all e prm (chunk_plan e) (session0 disk) = strip (c0, rc, s)"
    by (simp add: chunk_plan_def rechunker0_def)
  show thesis
  proof (cases c0)
    case (Normal u)
    show ?thesis
      by (rule that [of "Normal ()"])
         (simp_all add: ziplinePartialUpload_def assms ol Normal sa strip_simps)
  next
    case (Returned r)
    show ?thesis
      by (rule that [of "Returned r"])
         (simp_all add: ziplinePartialUpload_def assms ol Returned sa strip_simps)
  next
    case (Thrown err)
    show ?thesis
      by (rule that [of "Thrown err"])
         (simp_all add: ziplinePartialUpload_def assms ol Thrown sa strip_simps)
  qed
qed

lemma upload_not_fetched:
  "\<not> fetch_ok e \<Longrightarrow> ziplinePartialUpload e prm disk = (Inl DownloadFailed, rechunker0, session0 disk)"
  by (simp add: ziplinePartialUpload_def)

subsection \<open>What one chunk attempt does\<close>

text \<open>
  \<open>chunk_request\<close> is the request that an attempt builds for the chunk \<open>x\<close> when the
  buffers are empty and the stream done after it (\<open>f\<close>) or not; \<open>verdict\<close> is how the
  attempt ends on the server's answer.
\<close>

definition chunk_request :: "params \<Rightarrow> bool \<Rightarrow> bytes \<Rightarrow> session \<Rightarrow> request" where
  "chunk_request prm f x s =
     \<lparr> authorization = authToken prm,
       range_start = uploadedBytes s,
       range_end = int (uploadedBytes s) + int (length x) - 1,
       range_total = (if f then uploadedBytes s + length x else contentLength prm),
       p_filename = filename prm,
       p_content_type =
         (if truthy (contentType prm) then the (contentType prm) else ''application/octet-stream''),
       p_content_length = (if f then uploadedBytes s + length x else contentLength prm),
       p_lastchunk = (f \<or> contentLength prm \<le> uploadedBytes s + length x),
       p_identifier = (if truthy (partialIdentifier s) then partialIdentifier s else None),
       deletes_at =
         (if truthy (expiry (upload_settings prm)) then expiry (upload_settings prm) else None),
       compression_hdr =
         (if truthy (compression (upload_settings prm)) then compression (upload_settings prm)
          else None),
       file_part = x \<rparr>"

definition verdict :: "http_response option \<Rightarrow> unit ctl" where
  "verdict a =
     (case a of
        None \<Rightarrow> Thrown FetchRejected
      | Some res \<Rightarrow>
          if \<not> ok res then Thrown (ChunkTransferError (status res) (parsed res))
          else if has_files (parsed res) then Returned (parsed res)
          else if partial_failed (parsed res) then Thrown PartialFailure
          else Normal ())"

definition staged :: "env \<Rightarrow> bytes \<Rightarrow> session \<Rightarrow> session" where
  "staged e x s = s\<lparr> draws := draws s + 1, fs := (fs s)(tmpname e (draws s) \<mapsto> x) \<rparr>"


lemma send_staged:
  "sendPartialChunk e (authToken prm) (tmpname e (draws s)) (filename prm) (contentType prm)
      (if f then uploadedBytes s + length x else contentLength prm)
      (partialIdentifier s) (f \<or> contentLength prm \<le> uploadedBytes s + length x)
      (upload_settings prm) (uploadedBytes s) (staged e x s) =
   (case server e (sent s @ [chunk_request prm f x s]) of
      None \<Rightarrow> Inl FetchRejected
    | Some res \<Rightarrow> if \<not> ok res then Inl (ChunkTransferError (status res) (parsed res))
                  else Inr (parsed res),
    (staged e x s)\<lparr> sent := sent s @ [chunk_request prm f x s] \<rparr>)"
proof -
  have st: "fs (staged e x s) (tmpname e (draws s)) = Some x" "sent (staged e x s) = sent s"
    by (simp_all add: staged_def)
  show ?thesis
    apply (simp only: sendPartialChunk_def st option.case Let_def chunk_request_def [symmetric])
    apply (simp split: option.split)
    done
qed


lemma attempt_send:
  "attempt e prm f 0 [] x s =
     (case sendPartialChunk e (authToken prm) (tmpname e (draws s)) (filename prm) (contentType prm)
             (if f then uploadedBytes s + length x else contentLength prm)
             (partialIdentifier s) (f \<or> contentLength prm \<le> uploadedBytes s + length x)
             (upload_settings prm) (uploadedBytes s) (staged e x s) of
        (Inl err, s2) \<Rightarrow> (Thrown err, release (tmpname e (draws s)) s2)
      | (Inr r, s2) \<Rightarrow>
          if has_files r
          then (Returned r, release (tmpname e (draws s)) (s2\<lparr> fs := (fs s2)(tmpname e (draws s) := None) \<rparr>))
          else
            let s3 = (if assigned_identifier r \<noteq> None
                      then s2\<lparr> partialIdentifier := assigned_identifier r \<rparr> else s2)
            in if partial_failed r then (Thrown PartialFailure, release (tmpname e (draws s)) s3)
               else
                 let s4 = release (tmpname e (draws s)) s3;
                     s5 = s4\<lparr> uploadedBytes := uploadedBytes s4 + length x \<rparr>;
                     s6 = (if onProgress prm
                           then s5\<lparr> progress := progress s5 @ [(uploadedBytes s5, contentLength prm)] \<rparr>
                           else s5)
                 in (Normal (), s6))"
proof -
  have a: "(if f then uploadedBytes s + length x else contentLength prm) \<le> uploadedBytes s + length x
           \<longleftrightarrow> f \<or> contentLength prm \<le> uploadedBytes s + length x"
    by simp
  have b: "uploadedBytes (staged e x s) = uploadedBytes s"
    "partialIdentifier (staged e x s) = partialIdentifier s"
    by (simp_all add: staged_def)
  show ?thesis
    unfolding attempt_def Let_def staged_def [symmetric]
    by (simp only: b a list.size simp_thms if_True if_False)
qed


lemmas attempt_run = attempt_send [unfolded send_staged]

lemmas attempt_unfold = attempt_run release_def staged_def verdict_def Let_def

lemma attempt_sent:
  "sent (snd (attempt e prm f 0 [] x s)) = sent s @ [chunk_request prm f x s]"
  by (simp add: attempt_unfold split: option.split)

lemma attempt_ctl:
  "fst (attempt e prm f 0 [] x s) = verdict (server e (sent s @ [chunk_request prm f x s]))"
  by (simp add: attempt_unfold split: option.split)

lemma attempt_fs:
  "fs (snd (attempt e prm f 0 [] x s)) = (fs s)(tmpname e (draws s) := None)"
  by (simp add: attempt_unfold split: option.split)

lemma attempt_draws:
  "draws (snd (attempt e prm f 0 [] x s)) = draws s + 1"
  by (simp add: attempt_unfold split: option.split)

lemma attempt_uploaded:
  "uploadedBytes (snd (attempt e prm f 0 [] x s)) =
     (if fst (attempt e prm f 0 [] x s) = Normal () then uploadedBytes s + length x
      else uploadedBytes s)"
  by (simp add: attempt_unfold split: option.split)

lemma attempt_progress:
  "progress (snd (attempt e prm f 0 [] x s)) =
     (if fst (attempt e prm f 0 [] x s) = Normal () \<and> onProgress prm
      then progress s @ [(uploadedBytes s + length x, contentLength prm)]
      else progress s)"
  by (simp add: attempt_unfold split: option.split)

lemma attempt_identifier:
  "fst (attempt e prm f 0 [] x s) = Normal () \<Longrightarrow>
     server e (sent s @ [chunk_request prm f x s]) = Some res \<Longrightarrow>
     partialIdentifier (snd (attempt e prm f 0 [] x s)) =
       (if assigned_identifier (parsed res) = None then partialIdentifier s
        else assigned_identifier (parsed res))"
  by (simp add: attempt_unfold split: if_splits)

subsection \<open>The requests of a transfer and the answers to them\<close>

text \<open>
  A response continues the session when it is \<^verbatim>\<open>ok\<close>, carries no non-empty files list and
  does not signal a partial failure. In the log of a transfer every request but possibly the
  last was answered so.
\<close>

definition continues :: "http_response option \<Rightarrow> bool" where
  "continues a =
     (case a of
        None \<Rightarrow> False
      | Some res \<Rightarrow> ok res \<and> \<not> has_files (parsed res) \<and> \<not> partial_failed (parsed res))"

lemma verdict_Normal: "verdict a = Normal u \<longleftrightarrow> continues a"
  by (simp add: verdict_def continues_def split: option.split)

lemma verdict_Returned:
  "verdict a = Returned r \<longleftrightarrow> (\<exists>res. a = Some res \<and> ok res \<and> has_files r \<and> parsed res = r)"
  by (auto simp: verdict_def split: option.split)

lemma verdict_Thrown:
  "verdict a = Thrown err \<longleftrightarrow>
     (a = None \<and> err = FetchRejected)
     \<or> (\<exists>res. a = Some res \<and> \<not> ok res \<and> err = ChunkTransferError (status res) (parsed res))
     \<or> (\<exists>res. a = Some res \<and> ok res \<and> \<not> has_files (parsed res) \<and> partial_failed (parsed res)
            \<and> err = PartialFailure)"
  by (auto simp: verdict_def split: option.split)

lemma send_all_invariant:
  assumes run: "send_all e prm plan s = (c, s')"
    and init: "I s"
    and step: "\<And>f x s. I s \<Longrightarrow> (x, f) \<in> set plan \<Longrightarrow> fst (attempt e prm f 0 [] x s) = Normal ()
                 \<Longrightarrow> I (snd (attempt e prm f 0 [] x s))"
    and stop: "\<And>f x s. I s \<Longrightarrow> (x, f) \<in> set plan \<Longrightarrow> fst (attempt e prm f 0 [] x s) \<noteq> Normal ()
                 \<Longrightarrow> Q (fst (attempt e prm f 0 [] x s)) (snd (attempt e prm f 0 [] x s))"
  shows "if c = Normal () then I s' else Q c s'"
  using run init step stop
proof (induction plan arbitrary: s)
  case Nil
  then show ?case by simp
next
  case (Cons a plan)
  obtain x f where a: "a = (x, f)" by (cases a)
  obtain c1 s1 where att: "attempt e prm f 0 [] x s = (c1, s1)"
    by (cases "attempt e prm f 0 [] x s")
  show ?case
  proof (cases "c1 = Normal ()")
    case True
    with Cons.prems(1) att a have run': "send_all e prm plan s1 = (c, s')" by simp
    have "I s1" using Cons.prems(3) [of s x f] Cons.prems(2) att True a by simp
    show ?thesis
    proof (rule Cons.IH [OF run' \<open>I s1\<close>])
      fix f x s assume "I s" "(x, f) \<in> set plan" "fst (attempt e prm f 0 [] x s) = Normal ()"
      then show "I (snd (attempt e prm f 0 [] x s))" using Cons.prems(3) by simp
    next
      fix f x s assume "I s" "(x, f) \<in> set plan" "fst (attempt e prm f 0 [] x s) \<noteq> Normal ()"
      then show "Q (fst (attempt e prm f 0 [] x s)) (snd (attempt e prm f 0 [] x s))"
        using Cons.prems(4) by simp
    qed
  next
    case False
    with Cons.prems(1) att a have "c = c1" "s' = s1"
      by (cases c1; simp)+
    moreover have "Q c1 s1" using Cons.prems(4) [of s x f] Cons.prems(2) att False a by simp
    ultimately show ?thesis using False by simp
  qed
qed

definition acked :: "env \<Rightarrow> request list \<Rightarrow> bool" where
  "acked e h = (\<forall>k < length h. continues (server e (take (Suc k) h)))"

lemma acked_snoc: "acked e (h @ [q]) \<longleftrightarrow> acked e h \<and> continues (server e (h @ [q]))"
  by (auto simp: acked_def less_Suc_eq)

lemma send_all_trace:
  assumes run: "send_all e prm plan s = (c, s')" and init: "acked e (sent s)"
  shows "if c = Normal () then acked e (sent s')
         else sent s' \<noteq> [] \<and> acked e (butlast (sent s')) \<and> verdict (server e (sent s')) = c"
proof (rule send_all_invariant [OF run, where I = "\<lambda>s. acked e (sent s)"])
  show "acked e (sent s)" by (rule init)
next
  fix f x s assume "acked e (sent s)" "fst (attempt e prm f 0 [] x s) = Normal ()"
  then show "acked e (sent (snd (attempt e prm f 0 [] x s)))"
    by (simp add: attempt_sent attempt_ctl acked_snoc verdict_Normal)
next
  fix f x s assume "acked e (sent s)" "fst (attempt e prm f 0 [] x s) \<noteq> Normal ()"
  then show "sent (snd (attempt e prm f 0 [] x s)) \<noteq> [] \<and>
       acked e (butlast (sent (snd (attempt e prm f 0 [] x s)))) \<and>
       verdict (server e (sent (snd (attempt e prm f 0 [] x s)))) = fst (attempt e prm f 0 [] x s)"
    by (simp add: attempt_sent attempt_ctl)
qed

lemma send_all_preserves:
  assumes run: "send_all e prm plan s = (c, s')"
    and init: "I s"
    and step: "\<And>f x s. I s \<Longrightarrow> I (snd (attempt e prm f 0 [] x s))"
  shows "I s'"
  using send_all_invariant [OF run, where I = I and Q = "\<lambda>c. I"] init step
  by (simp split: if_splits)

lemma chunk_request_fields:
  "range_start (chunk_request prm f x s) = uploadedBytes s"
  "range_end (chunk_request prm f x s) = int (uploadedBytes s) + int (length x) - 1"
  "range_total (chunk_request prm f x s) = (if f then uploadedBytes s + length x else contentLength prm)"
  "p_content_length (chunk_request prm f x s) = (if f then uploadedBytes s + length x else contentLength prm)"
  "p_lastchunk (chunk_request prm f x s) = (f \<or> contentLength prm \<le> uploadedBytes s + length x)"
  "p_identifier (chunk_request prm f x s) = (if truthy (partialIdentifier s) then partialIdentifier s else None)"
  "file_part (chunk_request prm f x s) = x"
  by (simp_all add: chunk_request_def)

lemma session0_fields:
  "uploadedBytes (session0 disk) = 0" "partialIdentifier (session0 disk) = None"
  "fs (session0 disk) = disk" "draws (session0 disk) = 0" "sent (session0 disk) = []"
  "progress (session0 disk) = []"
  by (simp_all add: session0_def)

lemma upload_trace:
  assumes "fetch_ok e"
  obtains c where "fst (ziplinePartialUpload e prm disk) = finish c"
    and "c = Normal () \<Longrightarrow> acked e (requests (ziplinePartialUpload e prm disk))"
    and "c \<noteq> Normal () \<Longrightarrow> requests (ziplinePartialUpload e prm disk) \<noteq> []
           \<and> acked e (butlast (requests (ziplinePartialUpload e prm disk)))
           \<and> verdict (server e (requests (ziplinePartialUpload e prm disk))) = c"
proof -
  from upload_as_plan [OF assms, of prm disk] obtain c where
    run: "send_all e prm (chunk_plan e) (session0 disk) = (c, snd (snd (ziplinePartialUpload e prm disk)))"
    and fin: "fst (ziplinePartialUpload e prm disk) = finish c" by blast
  have "acked e (sent (session0 disk))" by (simp add: session0_fields acked_def)
  from send_all_trace [OF run this] fin show thesis
    by (intro that [of c]) (simp_all add: requests_def split: if_splits)
qed

lemma upload_no_fetch_requests:
  "\<not> fetch_ok e \<Longrightarrow> requests (ziplinePartialUpload e prm disk) = []"
  by (simp add: upload_not_fetched requests_def session0_fields)

lemma acked_prefix: "acked e h \<Longrightarrow> k < length h \<Longrightarrow> continues (server e (take (Suc k) h))"
  by (simp add: acked_def)

lemma acked_butlast:
  "acked e (butlast h) \<Longrightarrow> Suc k < length h \<Longrightarrow> continues (server e (take (Suc k) h))"
  using acked_prefix [of e "butlast h" k] by (simp add: take_butlast)

definition refusing_second :: "request list \<Rightarrow> http_response option" where
  "refusing_second h =
     (if length h = 2 then Some \<lparr> ok = True, status = 200, parsed = JObj None None (Some False) \<rparr>
      else accepting h)"

lemma attempt_general:
  "attempt e prm dn nacc buffer x s = attempt e prm (buffer = [] \<and> nacc = 0 \<and> dn) 0 [] x s"
  by (rule attempt_flag) simp

lemma upload_store:
  "fs (snd (snd (ziplinePartialUpload e prm disk))) =
     (\<lambda>p. if (\<exists>k < draws (snd (snd (ziplinePartialUpload e prm disk))). p = tmpname e k)
          then None else disk p)
   \<and> draws (snd (snd (ziplinePartialUpload e prm disk))) = length (requests (ziplinePartialUpload e prm disk))"
proof (cases "fetch_ok e")
  case False
  then show ?thesis
    by (simp add: upload_not_fetched requests_def session0_fields)
next
  case True
  let ?I = "\<lambda>s. fs s = (\<lambda>p. if (\<exists>k < draws s. p = tmpname e k) then None else disk p)
                \<and> draws s = length (sent s)"
  from upload_as_plan [OF True, of prm disk] obtain c where
    run: "send_all e prm (chunk_plan e) (session0 disk) = (c, snd (snd (ziplinePartialUpload e prm disk)))"
    by blast
  have "?I (snd (snd (ziplinePartialUpload e prm disk)))"
  proof (rule send_all_preserves [OF run, where I = ?I])
    show "?I (session0 disk)" by (simp add: session0_fields)
  next
    fix f x and s :: session assume "?I s"
    then show "?I (snd (attempt e prm f 0 [] x s))"
      by (auto simp: attempt_fs attempt_draws attempt_sent less_Suc_eq fun_eq_iff)
  qed
  then show ?thesis by (simp add: requests_def)
qed

definition refusing_all :: "request list \<Rightarrow> http_response option" where
  "refusing_all h = Some \<lparr> ok = False, status = 500, parsed = JOther ''down'' \<rparr>"

lemma acked_session0: "acked e (sent (session0 disk))"
  by (simp add: session0_fields acked_def)

lemma acked_last: "acked e h \<Longrightarrow> h \<noteq> [] \<Longrightarrow> continues (server e h)"
  using acked_prefix [of e h "length h - 1"] by simp

lemma acked_upto:
  "acked e h \<or> acked e (butlast h) \<Longrightarrow> Suc k < length h \<Longrightarrow> continues (server e (take (Suc k) h))"
  using acked_prefix [of e h k] acked_butlast [of e h k] by auto

lemma finish_files: "finish c = Inr r \<Longrightarrow> has_files r \<Longrightarrow> c = Returned r"
  by (cases c) (auto simp: has_files_def)

lemma upload_progress:
  assumes "onProgress prm" and run: "send_all e prm plan s = (c, s')"
    and init: "progress s = map (\<lambda>q. (range_start q + length (file_part q), contentLength prm)) (sent s)"
  shows "progress s' = map (\<lambda>q. (range_start q + length (file_part q), contentLength prm))
                         (if c = Normal () then sent s' else butlast (sent s'))"
proof -
  let ?g = "\<lambda>q. (range_start q + length (file_part q), contentLength prm)"
  have "if c = Normal () then progress s' = map ?g (sent s')
        else progress s' = map ?g (butlast (sent s'))"
  proof (rule send_all_invariant [OF run, where I = "\<lambda>s. progress s = map ?g (sent s)"
            and Q = "\<lambda>c s. progress s = map ?g (butlast (sent s))"])
    show "progress s = map ?g (sent s)" by (rule init)
  next
    fix f x and s :: session
    assume "progress s = map ?g (sent s)" "fst (attempt e prm f 0 [] x s) = Normal ()"
    then show "progress (snd (attempt e prm f 0 [] x s)) = map ?g (sent (snd (attempt e prm f 0 [] x s)))"
      using assms(1) by (simp add: attempt_progress attempt_sent chunk_request_fields)
  next
    fix f x and s :: session
    assume "progress s = map ?g (sent s)" "fst (attempt e prm f 0 [] x s) \<noteq> Normal ()"
    then show "progress (snd (attempt e prm f 0 [] x s))
                 = map ?g (butlast (sent (snd (attempt e prm f 0 [] x s))))"
      by (simp add: attempt_progress attempt_sent)
  qed
  then show ?thesis by (simp split: if_splits)
qed

definition completing_second :: "request list \<Rightarrow> http_response option" where
  "completing_second h =
     (if length h = 2
      then Some \<lparr> ok = True, status = 200, parsed = JObj (Some [''a.bin'']) None None \<rparr>
      else accepting h)"

lemma finish_Normal: "finish c = Inr r \<Longrightarrow> c = Normal () \<Longrightarrow> r = JObj None None (Some True)"
  by simp

subsection \<open>The session identifier on the requests\<close>

definition id_rule :: "env \<Rightarrow> request list \<Rightarrow> bool" where
  "id_rule e h =
     ((h \<noteq> [] \<longrightarrow> p_identifier (h ! 0) = None)
      \<and> (\<forall>k res. Suc k < length h \<and> server e (take (Suc k) h) = Some res \<longrightarrow>
            p_identifier (h ! Suc k) =
              (if assigned_identifier (parsed res) = None then p_identifier (h ! k)
               else assigned_identifier (parsed res))))"

lemma id_rule_snoc:
  assumes "id_rule e h"
    and "h = [] \<Longrightarrow> p_identifier q = None"
    and "\<And>res. h \<noteq> [] \<Longrightarrow> server e h = Some res \<Longrightarrow>
           p_identifier q = (if assigned_identifier (parsed res) = None then p_identifier (last h)
                             else assigned_identifier (parsed res))"
  shows "id_rule e (h @ [q])"
  unfolding id_rule_def
proof (intro conjI impI allI)
  show "p_identifier ((h @ [q]) ! 0) = None"
    using assms(1,2) by (cases "h = []") (auto simp: id_rule_def nth_append)
next
  fix k res
  assume a: "Suc k < length (h @ [q]) \<and> server e (take (Suc k) (h @ [q])) = Some res"
  show "p_identifier ((h @ [q]) ! Suc k) =
          (if assigned_identifier (parsed res) = None then p_identifier ((h @ [q]) ! k)
           else assigned_identifier (parsed res))"
  proof (cases "Suc k < length h")
    case True
    with a have "server e (take (Suc k) h) = Some res" by simp
    with assms(1) True show ?thesis by (simp add: id_rule_def nth_append)
  next
    case False
    with a have k: "Suc k = length h" by simp
    then have ne: "h \<noteq> []" by auto
    from k a have "server e h = Some res" by simp
    have lk: "last h = h ! k" using k ne by (simp add: last_conv_nth [OF ne] flip: k)
    from assms(3) [OF ne \<open>server e h = Some res\<close>] k show ?thesis
      by (simp add: nth_append lk)
  qed
qed

lemma truthy_assigned: "assigned_identifier r = Some i \<Longrightarrow> truthy (Some i)"
  by (cases r) (auto simp: assigned_identifier_def split: if_splits)

definition id_state :: "env \<Rightarrow> session \<Rightarrow> bool" where
  "id_state e s =
     (id_rule e (sent s)
      \<and> (partialIdentifier s = None \<or> truthy (partialIdentifier s))
      \<and> (if sent s = [] then partialIdentifier s = None
         else \<forall>res. server e (sent s) = Some res \<longrightarrow>
                partialIdentifier s =
                  (if assigned_identifier (parsed res) = None then p_identifier (last (sent s))
                   else assigned_identifier (parsed res))))"

lemma id_state_request:
  assumes "id_state e s"
  shows "id_rule e (sent s @ [chunk_request prm f x s])"
    and "p_identifier (chunk_request prm f x s) = partialIdentifier s"
proof -
  from assms show p: "p_identifier (chunk_request prm f x s) = partialIdentifier s"
    by (auto simp: id_state_def chunk_request_fields)
  from assms show "id_rule e (sent s @ [chunk_request prm f x s])"
    by (intro id_rule_snoc) (auto simp: id_state_def p)
qed

lemma upload_id_rule: "id_rule e (requests (ziplinePartialUpload e prm disk))"
proof (cases "fetch_ok e")
  case False
  then show ?thesis
    by (simp add: upload_not_fetched requests_def session0_fields id_rule_def)
next
  case True
  from upload_as_plan [OF True, of prm disk] obtain c where
    run: "send_all e prm (chunk_plan e) (session0 disk) = (c, snd (snd (ziplinePartialUpload e prm disk)))"
    by blast
  have "if c = Normal () then id_state e (snd (snd (ziplinePartialUpload e prm disk)))
        else id_rule e (sent (snd (snd (ziplinePartialUpload e prm disk))))"
  proof (rule send_all_invariant [OF run, where I = "id_state e" and Q = "\<lambda>c s. id_rule e (sent s)"])
    show "id_state e (session0 disk)"
      by (simp add: id_state_def id_rule_def session0_fields)
  next
    fix f x and s :: session
    assume inv: "id_state e s" and nrm: "fst (attempt e prm f 0 [] x s) = Normal ()"
    let ?q = "chunk_request prm f x s"
    from nrm have "continues (server e (sent s @ [?q]))"
      by (simp add: attempt_ctl verdict_Normal)
    then obtain res where res: "server e (sent s @ [?q]) = Some res"
      by (auto simp: continues_def split: option.splits)
    from attempt_identifier [OF nrm res]
    have pid: "partialIdentifier (snd (attempt e prm f 0 [] x s)) =
                 (if assigned_identifier (parsed res) = None then partialIdentifier s
                  else assigned_identifier (parsed res))" .
    have ok: "partialIdentifier (snd (attempt e prm f 0 [] x s)) = None
              \<or> truthy (partialIdentifier (snd (attempt e prm f 0 [] x s)))"
      using inv pid truthy_assigned [of "parsed res"] by (auto simp: id_state_def)
    show "id_state e (snd (attempt e prm f 0 [] x s))"
      unfolding id_state_def
      using id_state_request [OF inv, of prm f x] ok pid res
      by (simp add: attempt_sent)
  next
    fix f x and s :: session
    assume inv: "id_state e s"
    from id_state_request(1) [OF inv, of prm f x]
    show "id_rule e (sent (snd (attempt e prm f 0 [] x s)))"
      by (simp add: attempt_sent)
  qed
  then show ?thesis by (auto simp: requests_def id_state_def split: if_splits)
qed

definition reassigning :: "request list \<Rightarrow> http_response option" where
  "reassigning h =
     Some \<lparr> ok = True, status = 200,
            parsed = JObj None (Some (if length h = 1 then ''s1'' else ''s2'')) None \<rparr>"

definition naming_once :: "request list \<Rightarrow> http_response option" where
  "naming_once h =
     Some \<lparr> ok = True, status = 200,
            parsed = (if length h = 1 then JObj None (Some ''s1'') None
                      else JObj None None (Some True)) \<rparr>"

subsection \<open>Chunk sizes and last-chunk flags of a stream that is sent whole\<close>

text \<open>
  \<open>plan_all\<close> cuts a byte string into full chunks followed by the undersized rest, which
  alone is sent after the iterator has reported \<^verbatim>\<open>done\<close>. The plan of the loops is this
  one, whatever the fragments.
\<close>

function plan_all :: "nat \<Rightarrow> bytes \<Rightarrow> (bytes \<times> bool) list" where
  "plan_all c xs =
     (if 0 < c \<and> c \<le> length xs then (take c xs, False) # plan_all c (drop c xs)
      else if xs \<noteq> [] then [(xs, True)]
      else [])"
  by pat_completeness auto
termination
  by (relation "measure (\<lambda>(c, xs). length xs)") auto

declare plan_all.simps [simp del]

lemma plan_all_full:
  "0 < c \<Longrightarrow> c \<le> length xs \<Longrightarrow> plan_all c xs = (take c xs, False) # plan_all c (drop c xs)"
  by (subst plan_all.simps) simp

lemma plan_all_short:
  "length xs < c \<Longrightarrow> plan_all c xs = (if xs \<noteq> [] then [(xs, True)] else [])"
  by (subst plan_all.simps) simp

lemma plan_all_rest:
  "\<not> (0 < c \<and> c \<le> length xs) \<Longrightarrow> plan_all c xs = (if xs \<noteq> [] then [(xs, True)] else [])"
  by (subst plan_all.simps) auto

lemma leftover_small: "0 < c \<Longrightarrow> length (leftover c False w) < c"
proof (induction c "False" w rule: leftover.induct)
  case (1 c b)
  show ?case
  proof (cases "c \<le> length b")
    case True
    with 1 show ?thesis by (simp add: leftover_step)
  next
    case False
    then show ?thesis by (simp add: leftover_exit)
  qed
qed

lemma plan_all_append:
  "0 < c \<Longrightarrow> plan_all c (w @ y) = slices c False w @ plan_all c (leftover c False w @ y)"
proof (induction c "False" w rule: slices.induct)
  case (1 c b)
  show ?case
  proof (cases "c \<le> length b")
    case True
    with 1 show ?thesis
      by (simp add: slices_step leftover_step plan_all_full)
  next
    case False
    then show ?thesis by (simp add: slices_exit leftover_exit)
  qed
qed

lemma slices_done_short:
  assumes "0 < c" "length b < c"
  shows "slices c True b = plan_all c b"
proof (cases "b = []")
  case True
  with assms show ?thesis by (simp add: slices_exit plan_all_short)
next
  case False
  with assms show ?thesis
    by (simp add: slices_step slices_exit plan_all_short)
qed

lemma plan_outer_all:
  "0 < c \<Longrightarrow> length buf < c \<Longrightarrow> plan_outer c buf frags = plan_all c (buf @ concat frags)"
proof (induction frags arbitrary: buf)
  case Nil
  then show ?case by (simp add: slices_done_short)
next
  case (Cons v rest)
  from Cons.IH [OF Cons.prems(1) leftover_small [OF Cons.prems(1)], of "buf @ v"]
  show ?case
    using plan_all_append [OF Cons.prems(1), of "buf @ v" "concat rest"] by simp
qed

lemma chunk_plan_all: "chunk_plan e = plan_all (CHUNK_SIZE e) (concat (fetch_body e))"
  using plan_outer_all [where c = "CHUNK_SIZE e" and buf = "[]" and frags = "fetch_body e"]
    CHUNK_SIZE_pos [of e]
  by (simp add: chunk_plan_def)

lemma plan_all_concat: "concat (map fst (plan_all c xs)) = xs"
proof (induction c xs rule: plan_all.induct)
  case (1 c xs)
  show ?case
  proof (cases "0 < c \<and> c \<le> length xs")
    case True
    with 1 show ?thesis by (simp add: plan_all_full)
  next
    case False
    then show ?thesis by (simp add: plan_all_rest)
  qed
qed

lemma plan_all_length: "0 < c \<Longrightarrow> length (plan_all c xs) = (length xs + c - 1) div c"
proof (induction c xs rule: plan_all.induct)
  case (1 c xs)
  show ?case
  proof (cases "c \<le> length xs")
    case True
    have e1: "length (drop c xs) + c - 1 = length xs - 1"
      using True by simp
    have e2: "length xs + c - 1 = (length xs - 1) + c"
      using True "1.prems" by simp
    have "(length xs + c - 1) div c = (length xs - 1) div c + 1"
      unfolding e2 using "1.prems" div_add_self2 [of c "length xs - 1"] by simp
    moreover have "length (plan_all c (drop c xs)) = (length xs - 1) div c"
      using "1.IH" True "1.prems" e1 by simp
    ultimately show ?thesis
      using True "1.prems" by (simp add: plan_all_full)
  next
    case False
    show ?thesis
    proof (cases "xs = []")
      case True
      with "1.prems" show ?thesis by (simp add: plan_all_short)
    next
      case ne: False
      then have e2: "length xs + c - 1 = (length xs - 1) + c"
        using "1.prems" by (cases xs) simp_all
      have "(length xs - 1) div c = 0" using False by simp
      then have "(length xs + c - 1) div c = 1"
        unfolding e2 using "1.prems" div_add_self2 [of c "length xs - 1"] by simp
      with False ne show ?thesis by (simp add: plan_all_short)
    qed
  qed
qed

lemma plan_all_full_size:
  "0 < c \<Longrightarrow> k < length xs div c \<Longrightarrow> length (fst (plan_all c xs ! k)) = c"
proof (induction c xs arbitrary: k rule: plan_all.induct)
  case (1 c xs)
  from "1.prems" have le: "c \<le> length xs"
    by (metis div_less not_less not_less_zero)
  show ?case
  proof (cases k)
    case 0
    with le "1.prems" show ?thesis by (simp add: plan_all_full)
  next
    case (Suc j)
    from "1.prems" le Suc have "j < length (drop c xs) div c"
      by (simp add: le_div_geq)
    with "1.IH" [of j] le "1.prems" Suc show ?thesis by (simp add: plan_all_full)
  qed
qed

lemma plan_all_last_size:
  "0 < c \<Longrightarrow> length xs mod c \<noteq> 0 \<Longrightarrow> length (fst (last (plan_all c xs))) = length xs mod c"
proof (induction c xs rule: plan_all.induct)
  case (1 c xs)
  show ?case
  proof (cases "c \<le> length xs")
    case True
    from "1.prems" True have m: "length (drop c xs) mod c = length xs mod c"
      by (simp add: le_mod_geq)
    with "1.prems" have "length (drop c xs) \<noteq> 0" by (metis mod_0)
    then have "plan_all c (drop c xs) \<noteq> []"
      using plan_all_concat [of c "drop c xs"] by auto
    with "1.IH" "1.prems" True m show ?thesis by (simp add: plan_all_full)
  next
    case False
    with "1.prems" show ?thesis by (auto simp: plan_all_short)
  qed
qed

fun lastflags :: "nat \<Rightarrow> nat \<Rightarrow> (bytes \<times> bool) list \<Rightarrow> bool list" where
  "lastflags cl u [] = []"
| "lastflags cl u ((x, f) # plan) = (f \<or> cl \<le> u + length x) # lastflags cl (u + length x) plan"

lemma plan_all_Nil: "plan_all c xs = [] \<longleftrightarrow> xs = []"
proof (cases "0 < c \<and> c \<le> length xs")
  case True
  then show ?thesis by (auto simp: plan_all_full)
next
  case False
  then show ?thesis by (simp add: plan_all_rest)
qed

lemma lastflags_length: "length (lastflags cl u plan) = length plan"
  by (induction plan arbitrary: u) auto

lemma lastflags_exact:
  "0 < c \<Longrightarrow> cl = u + length xs \<Longrightarrow> k < length (plan_all c xs) \<Longrightarrow>
     lastflags cl u (plan_all c xs) ! k = (Suc k = length (plan_all c xs))"
proof (induction c xs arbitrary: u k rule: plan_all.induct)
  case (1 c xs)
  show ?case
  proof (cases "c \<le> length xs")
    case True
    note full = plan_all_full [OF "1.prems"(1) True]
    show ?thesis
    proof (cases k)
      case 0
      have "plan_all c (drop c xs) = [] \<longleftrightarrow> length xs \<le> c"
        by (simp add: plan_all_Nil)
      with 0 True "1.prems" show ?thesis by (auto simp: full)
    next
      case (Suc j)
      with "1.prems" have j: "j < length (plan_all c (drop c xs))" by (simp add: full)
      have cl: "cl = (u + c) + length (drop c xs)" using "1.prems" True by simp
      have lt: "min (length xs) c = c" using True by simp
      have "lastflags cl u (plan_all c xs) ! k = lastflags cl (u + c) (plan_all c (drop c xs)) ! j"
        by (simp add: full Suc lt)
      also have "\<dots> = (Suc j = length (plan_all c (drop c xs)))"
        using "1.IH" [of "u + c" j] "1.prems"(1) True cl j by simp
      also have "\<dots> = (Suc k = length (plan_all c xs))"
        by (simp add: full Suc)
      finally show ?thesis .
    qed
  next
    case False
    with "1.prems" show ?thesis by (auto simp: plan_all_short split: if_splits)
  qed
qed


lemma send_all_prefix:
  "send_all e prm plan s = (c, s') \<Longrightarrow>
     \<exists>n \<le> length plan.
        map file_part (sent s') = map file_part (sent s) @ map fst (take n plan)
        \<and> map p_lastchunk (sent s') = map p_lastchunk (sent s)
              @ take n (lastflags (contentLength prm) (uploadedBytes s) plan)
        \<and> (c = Normal () \<longrightarrow> n = length plan)"
proof (induction plan arbitrary: s)
  case Nil
  then show ?case by simp
next
  case (Cons a plan)
  obtain x f where a: "a = (x, f)" by (cases a)
  obtain c1 s1 where att: "attempt e prm f 0 [] x s = (c1, s1)"
    by (cases "attempt e prm f 0 [] x s")
  have s1: "sent s1 = sent s @ [chunk_request prm f x s]"
    using attempt_sent [of e prm f x s] att by simp
  show ?case
  proof (cases "c1 = Normal ()")
    case True
    have u1: "uploadedBytes s1 = uploadedBytes s + length x"
      using attempt_uploaded [of e prm f x s] att True by simp
    from Cons.prems att True a have "send_all e prm plan s1 = (c, s')" by simp
    from Cons.IH [OF this] obtain n where n: "n \<le> length plan"
      "map file_part (sent s') = map file_part (sent s1) @ map fst (take n plan)"
      "map p_lastchunk (sent s') = map p_lastchunk (sent s1)
          @ take n (lastflags (contentLength prm) (uploadedBytes s1) plan)"
      "c = Normal () \<longrightarrow> n = length plan"
      by blast
    show ?thesis
      by (rule exI [of _ "Suc n"]) (use n in \<open>simp add: a s1 u1 chunk_request_fields\<close>)
  next
    case False
    with Cons.prems att a have "c = c1" "s' = s1" by (cases c1; simp)+
    with False show ?thesis
      by (intro exI [of _ "Suc 0"]) (simp add: a s1 chunk_request_fields)
  qed
qed

lemma plan_all_size:
  "0 < c \<Longrightarrow> k < length (plan_all c xs) \<Longrightarrow>
     length (fst (plan_all c xs ! k)) = (if k < length xs div c then c else length xs mod c)"
proof (induction c xs arbitrary: k rule: plan_all.induct)
  case (1 c xs)
  show ?case
  proof (cases "c \<le> length xs")
    case True
    note full = plan_all_full [OF "1.prems"(1) True]
    have d: "length xs div c = Suc (length (drop c xs) div c)"
      and m: "length xs mod c = length (drop c xs) mod c"
      using True "1.prems"(1) by (simp_all add: le_div_geq le_mod_geq)
    show ?thesis
    proof (cases k)
      case 0
      with True d show ?thesis by (simp add: full)
    next
      case (Suc j)
      with "1.prems" have j: "j < length (plan_all c (drop c xs))" by (simp add: full)
      from "1.IH" [of j] "1.prems"(1) True j
      have "length (fst (plan_all c (drop c xs) ! j))
              = (if j < length (drop c xs) div c then c else length (drop c xs) mod c)"
        by simp
      then show ?thesis
        unfolding d m by (simp add: full Suc)
    qed
  next
    case False
    with "1.prems" show ?thesis by (auto simp: plan_all_short split: if_splits)
  qed
qed

lemma upload_chunks:
  "\<exists>n \<le> length (plan_all (CHUNK_SIZE e) (concat (fetch_body e))).
      map file_part (requests (ziplinePartialUpload e prm disk))
        = map fst (take n (plan_all (CHUNK_SIZE e) (concat (fetch_body e))))
      \<and> map p_lastchunk (requests (ziplinePartialUpload e prm disk))
        = take n (lastflags (contentLength prm) 0 (plan_all (CHUNK_SIZE e) (concat (fetch_body e))))
      \<and> (fetch_ok e \<and> acked e (requests (ziplinePartialUpload e prm disk)) \<longrightarrow>
            n = length (plan_all (CHUNK_SIZE e) (concat (fetch_body e)))
            \<and> fst (ziplinePartialUpload e prm disk) = Inr (JObj None None (Some True)))
      \<and> (fst (ziplinePartialUpload e prm disk) = Inr (JObj None None (Some True)) \<longrightarrow>
            n = length (plan_all (CHUNK_SIZE e) (concat (fetch_body e))))"
proof (cases "fetch_ok e")
  case False
  then show ?thesis
    by (intro exI [of _ 0]) (simp add: upload_not_fetched requests_def session0_fields)
next
  case True
  let ?out = "ziplinePartialUpload e prm disk"
  let ?plan = "plan_all (CHUNK_SIZE e) (concat (fetch_body e))"
  from upload_as_plan [OF True, of prm disk] obtain c where
    run: "send_all e prm (chunk_plan e) (session0 disk) = (c, snd (snd ?out))"
    and fin: "fst ?out = finish c" by blast
  from send_all_prefix [OF run] obtain n where n: "n \<le> length ?plan"
    "map file_part (requests ?out) = map fst (take n ?plan)"
    "map p_lastchunk (requests ?out) = take n (lastflags (contentLength prm) 0 ?plan)"
    "c = Normal () \<longrightarrow> n = length ?plan"
    by (auto simp: session0_fields requests_def chunk_plan_all)
  have tr: "if c = Normal () then acked e (requests ?out)
            else requests ?out \<noteq> [] \<and> acked e (butlast (requests ?out))
                 \<and> verdict (server e (requests ?out)) = c"
    using send_all_trace [OF run acked_session0] by (simp add: requests_def)
  have a: "c = Normal ()" if "acked e (requests ?out)"
  proof (rule ccontr)
    assume nc: "c \<noteq> Normal ()"
    with tr have ne: "requests ?out \<noteq> []" and vc: "verdict (server e (requests ?out)) = c"
      by simp_all
    from acked_last [OF that ne] have "verdict (server e (requests ?out)) = Normal ()"
      by (simp only: verdict_Normal)
    with vc nc show False by simp
  qed
  have b: "c = Normal ()" if r: "fst ?out = Inr (JObj None None (Some True))"
  proof (cases c)
    case (Normal u)
    then show ?thesis by simp
  next
    case (Returned r')
    with fin r have "r' = JObj None None (Some True)" by simp
    with tr Returned have "verdict (server e (requests ?out)) = Returned (JObj None None (Some True))"
      by simp
    then show ?thesis by (auto simp: verdict_Returned has_files_def)
  next
    case (Thrown err)
    with fin r show ?thesis by simp
  qed
  have pa: "n = length ?plan \<and> fst ?out = Inr (JObj None None (Some True))"
    if "acked e (requests ?out)"
    using a [OF that] n(4) fin by simp
  have pb: "n = length ?plan" if "fst ?out = Inr (JObj None None (Some True))"
    using b [OF that] n(4) by simp
  from n(1,2,3) pa pb show ?thesis by blast
qed

definition completing_on_last :: "request list \<Rightarrow> http_response option" where
  "completing_on_last h =
     (if h \<noteq> [] \<and> p_lastchunk (last h)
      then Some \<lparr> ok = True, status = 200, parsed = JObj (Some [''a.bin'']) None None \<rparr>
      else accepting h)"

subsection \<open>The bytes held in the buffers\<close>

lemma note_held_log:
  "held (note_held b rc) = held rc @ [(False, length (concat (accumulatedChunks rc)) + length b)]"
  "held (note_copied b rc) = held rc @ [(True, length (concat (accumulatedChunks rc)) + length b)]"
  by (simp_all add: note_held_def note_copied_def)

lemma slice_loop_held:
  "slice_loop e prm dn buffer rc s = (c, rc', s') \<Longrightarrow> accumulatedChunks rc = [] \<Longrightarrow>
     set (held rc') \<subseteq> set (held rc) \<union> {(False, n) | n. n \<le> length buffer}"
proof (induction e prm dn buffer rc s rule: slice_loop.induct)
  case (1 e prm dn buffer rc s)
  let ?C = "CHUNK_SIZE e"
  show ?case
  proof (cases "?C \<le> length buffer \<or> (dn \<and> 0 < length buffer)")
    case False
    with "1.prems" show ?thesis
      by (auto simp: slice_loop_exit)
  next
    case True
    then have live: "\<not> (\<not> dn \<and> length buffer < ?C)" by auto
    let ?n = "min (length buffer) ?C"
    obtain c1 s1 where att:
      "attempt e prm dn (length (accumulatedChunks rc)) (drop ?C buffer) (take ?C buffer) s = (c1, s1)"
      by (cases "attempt e prm dn (length (accumulatedChunks rc)) (drop ?C buffer) (take ?C buffer) s")
    show ?thesis
    proof (cases c1)
      case (Normal u)
      with "1.prems" att
      have rec: "slice_loop e prm dn (drop ?n buffer) (note_held (drop ?n buffer) rc) s1 = (c, rc', s')"
        by (simp add: slice_loop_step [OF True] take_drop_min)
      have att': "(Normal u, s1) = attempt e prm dn (length (accumulatedChunks rc)) (drop ?n buffer) (take ?n buffer) s"
        using att Normal by (simp add: take_drop_min)
      have "accumulatedChunks (note_held (drop ?n buffer) rc) = []"
        using "1.prems" by (simp add: note_held_fields)
      from "1.IH" [OF True live refl refl refl att' refl rec this] "1.prems"(2)
      show ?thesis by (auto simp: note_held_log)
    next
      case (Returned r)
      with "1.prems" att show ?thesis
        by (auto simp: slice_loop_step [OF True] note_held_log)
    next
      case (Thrown err)
      with "1.prems" att show ?thesis
        by (auto simp: slice_loop_step [OF True] note_held_log)
    qed
  qed
qed

lemma mid_loop_held:
  assumes "rc_ok rc" and "mid_loop e prm dn rc s = (c, rc', s')"
  shows "set (held rc') \<subseteq> set (held rc)
           \<union> {(False, n) | n. n \<le> accumulatedLen rc \<or> n < 2 * CHUNK_SIZE e}
           \<union> {(True, n) | n. n \<le> 2 * accumulatedLen rc}"
    (is "_ \<subseteq> ?B")
proof (cases "CHUNK_SIZE e \<le> accumulatedLen rc \<or> (dn \<and> 0 < accumulatedLen rc)")
  case False
  with assms(2) show ?thesis by (auto simp: mid_loop_exit)
next
  case True
  let ?b = "concat (accumulatedChunks rc)"
  let ?rc1 = "note_held ?b ((note_copied ?b rc)\<lparr> accumulatedChunks := [], accumulatedLen := 0 \<rparr>)"
  have len: "length ?b = accumulatedLen rc" using assms(1) by (simp add: rc_ok_def)
  have e1: "accumulatedChunks ?rc1 = []" by (simp add: note_held_fields)
  have h1: "set (held ?rc1) \<subseteq> ?B"
    using len by (auto simp: note_held_def note_copied_def)
  obtain c2 rc2 s2 where sl: "slice_loop e prm dn ?b ?rc1 s = (c2, rc2, s2)"
    by (cases "slice_loop e prm dn ?b ?rc1 s")
  from slice_loop_held [OF sl e1] h1 len
  have h2: "set (held rc2) \<subseteq> ?B" by auto
  show ?thesis
  proof (cases c2)
    case (Normal b')
    from slice_loop_Normal [OF sl [unfolded Normal]] e1
    have f: "accumulatedChunks rc2 = []" "length b' < CHUNK_SIZE e"
      by (auto split: if_splits)
    from assms(2) sl Normal
    have rc': "rc' = (if 0 < length b' then note_held [] (note_held b' (push b' rc2)) else rc2)"
      by (simp add: mid_loop_once [OF True])
    show ?thesis
    proof (cases "0 < length b'")
      case False
      with rc' h2 show ?thesis by simp
    next
      case pos: True
      with rc' f have "set (held rc') = set (held rc2) \<union> {(False, length b' + length b'), (False, length b')}"
        by (auto simp: note_held_def push_def)
      with h2 f(2) show ?thesis by auto
    qed
  next
    case (Returned r)
    with assms(2) sl h2 show ?thesis by (auto simp: mid_loop_once [OF True])
  next
    case (Thrown err)
    with assms(2) sl h2 show ?thesis by (auto simp: mid_loop_once [OF True])
  qed
qed

lemma outer_loop_held:
  "rc_ok rc \<Longrightarrow> accumulatedLen rc < CHUNK_SIZE e \<Longrightarrow> \<forall>v \<in> set frags. length v \<le> m \<Longrightarrow>
     outer_loop e prm frags rc s = (c, rc', s') \<Longrightarrow>
     set (held rc') \<subseteq> set (held rc)
        \<union> {(False, n) | n. n < CHUNK_SIZE e + m \<or> n < 2 * CHUNK_SIZE e}
        \<union> {(True, n) | n. n < 2 * (CHUNK_SIZE e + m)}"
proof (induction frags arbitrary: rc s)
  case Nil
  from mid_loop_held [OF Nil.prems(1), of e prm True s c rc' s'] Nil.prems
  show ?case by auto
next
  case (Cons v rest)
  let ?B = "{(False, n) | n. n < CHUNK_SIZE e + m \<or> n < 2 * CHUNK_SIZE e}
              \<union> {(True, n) | n. n < 2 * (CHUNK_SIZE e + m)}"
  let ?rc1 = "note_held [] (push v rc)"
  have ok1: "rc_ok ?rc1" using Cons.prems(1) by (rule push_ok)
  have l1: "accumulatedLen ?rc1 < CHUNK_SIZE e + m"
    using Cons.prems(2,3) by (simp add: note_held_fields push_def)
  have h1: "set (held ?rc1) \<subseteq> set (held rc) \<union> ?B"
    using Cons.prems(1,2,3) by (auto simp: note_held_def push_def rc_ok_def)
  obtain c2 rc2 s2 where ml: "mid_loop e prm False ?rc1 s = (c2, rc2, s2)"
    by (cases "mid_loop e prm False ?rc1 s")
  from mid_loop_held [OF ok1 ml] h1 l1
  have h2: "set (held rc2) \<subseteq> set (held rc) \<union> ?B" by auto
  show ?case
  proof (cases c2)
    case (Normal u)
    from mid_loop_Normal [OF ok1 ml [unfolded Normal]]
    have ok2: "rc_ok rc2" and l2: "accumulatedLen rc2 < CHUNK_SIZE e" by simp_all
    from Cons.prems(4) ml Normal have "outer_loop e prm rest rc2 s2 = (c, rc', s')" by simp
    from Cons.IH [OF ok2 l2 _ this] Cons.prems(3) h2 show ?thesis by auto
  next
    case (Returned r)
    with Cons.prems(4) ml h2 show ?thesis by auto
  next
    case (Thrown err)
    with Cons.prems(4) ml h2 show ?thesis by auto
  qed
qed

lemma upload_held:
  assumes "\<forall>v \<in> set (fetch_body e). length v \<le> m"
  shows "set (held (fst (snd (ziplinePartialUpload e prm disk))))
           \<subseteq> {(False, n) | n. n < CHUNK_SIZE e + m \<or> n < 2 * CHUNK_SIZE e}
             \<union> {(True, n) | n. n < 2 * (CHUNK_SIZE e + m)}"
proof (cases "fetch_ok e")
  case False
  then show ?thesis by (simp add: upload_not_fetched rechunker0_def)
next
  case True
  obtain c rc s where ol: "outer_loop e prm (fetch_body e) rechunker0 (session0 disk) = (c, rc, s)"
    by (cases "outer_loop e prm (fetch_body e) rechunker0 (session0 disk)")
  have "rc_ok rechunker0" "accumulatedLen rechunker0 < CHUNK_SIZE e" "held rechunker0 = []"
    using CHUNK_SIZE_pos [of e] by (simp_all add: rc_ok_def rechunker0_def)
  from outer_loop_held [OF this(1,2) assms ol] this(3)
  have "set (held rc) \<subseteq> {(False, n) | n. n < CHUNK_SIZE e + m \<or> n < 2 * CHUNK_SIZE e}
             \<union> {(True, n) | n. n < 2 * (CHUNK_SIZE e + m)}" by auto
  moreover have "fst (snd (ziplinePartialUpload e prm disk)) = rc"
    using True ol by (cases c) (simp_all add: ziplinePartialUpload_def)
  ultimately show ?thesis by simp
qed

section \<open>Properties\<close>

text \<open>
  C1. The last-chunk flag of a chunk should be true exactly when, after that chunk, the source
  stream is exhausted and nothing remains buffered; a chunk that only reaches the declared
  length while unread source bytes remain should not be flagged. The code compares with the
  declared length whenever it has not yet seen \<^verbatim>\<open>done\<close>: with a declared length of 2
  and a stream of 4 bytes in two fragments, the first chunk of 2 bytes is flagged last although
  the second fragment is still unread, and the second chunk is flagged last again.
\<close>

theorem lastchunk_flag_at_understated_length:
  "map (\<lambda>q. (range_start q, length (file_part q), p_lastchunk q))
     (requests (ziplinePartialUpload (relay [[1, 2], [3, 4]] accepting) (declared 2) Map.empty))
   = [(0, 2, True), (2, 2, True)]"
  by code_simp

text \<open>
  C2. When the declared length differs from the true length, the total sent with the final
  chunk should be the bytes sent before it plus its size. The code corrects the total only on a
  chunk sent after the iterator has reported \<^verbatim>\<open>done\<close>, which is the case only for an
  undersized final chunk. With a declared length of 6 and a stream of 4 bytes, a multiple of the
  chunk size 2, the final chunk (bytes 2 to 3) is sent with total 6 in both headers, and is not
  flagged last either.
\<close>

theorem declared_total_on_final_full_chunk:
  "map (\<lambda>q. (range_start q, range_end q, range_total q, p_content_length q, p_lastchunk q))
     (requests (ziplinePartialUpload (relay [[1, 2], [3, 4]] accepting) (declared 6) Map.empty))
   = [(0, 1, 6, 6, False), (2, 3, 6, 6, False)]
   \<and> fst (ziplinePartialUpload (relay [[1, 2], [3, 4]] accepting) (declared 6) Map.empty)
       = Inr (JObj None None (Some True))"
  by code_simp

text \<open>
  C3. An empty source stream yields no chunk at all, not one: the loops send a chunk only
  while bytes are buffered.
\<close>

theorem empty_stream_sends_no_chunk:
  "requests (ziplinePartialUpload (relay [] accepting) (declared 2) Map.empty) = []
   \<and> fst (ziplinePartialUpload (relay [] accepting) (declared 2) Map.empty)
       = Inr (JObj None None (Some True))"
  by code_simp

text \<open>
  C3, amended. Whatever the fragments of a source stream of \<open>L\<close> bytes and whatever the server
  answers, at most \<open>ceil(L/C)\<close> chunks are sent, and the chunk sent as number \<open>k\<close> (from 0) has
  exactly \<open>C\<close> bytes when \<open>k < floor(L/C)\<close> and \<open>L mod C\<close> bytes otherwise. When the download
  succeeds and every chunk sent is continued by the server, exactly \<open>ceil(L/C)\<close> chunks are sent
  (none when \<open>L = 0\<close>), their file parts are the stream in order, the first \<open>floor(L/C)\<close> have
  \<open>C\<close> bytes and, when \<open>C\<close> does not divide \<open>L\<close>, the last has \<open>L mod C\<close> bytes. When the
  declared length equals \<open>L\<close>, a chunk is flagged last exactly when it is the \<open>ceil(L/C)\<close>-th.
\<close>

theorem rechunking_of_stream:
  "length (requests (ziplinePartialUpload e prm disk))
     \<le> (length (concat (fetch_body e)) + CHUNK_SIZE e - 1) div CHUNK_SIZE e
   \<and> (\<forall>k < length (requests (ziplinePartialUpload e prm disk)).
         length (file_part (requests (ziplinePartialUpload e prm disk) ! k))
           = (if k < length (concat (fetch_body e)) div CHUNK_SIZE e then CHUNK_SIZE e
              else length (concat (fetch_body e)) mod CHUNK_SIZE e))
   \<and> (fetch_ok e
        \<and> (\<forall>k < length (requests (ziplinePartialUpload e prm disk)).
              continues (server e (take (Suc k) (requests (ziplinePartialUpload e prm disk)))))
       \<longrightarrow>
         length (requests (ziplinePartialUpload e prm disk))
           = (length (concat (fetch_body e)) + CHUNK_SIZE e - 1) div CHUNK_SIZE e
         \<and> concat (map file_part (requests (ziplinePartialUpload e prm disk))) = concat (fetch_body e)
         \<and> (\<forall>k < length (concat (fetch_body e)) div CHUNK_SIZE e.
               length (file_part (requests (ziplinePartialUpload e prm disk) ! k)) = CHUNK_SIZE e)
         \<and> (length (concat (fetch_body e)) mod CHUNK_SIZE e \<noteq> 0 \<longrightarrow>
               length (file_part (last (requests (ziplinePartialUpload e prm disk))))
                 = length (concat (fetch_body e)) mod CHUNK_SIZE e))
   \<and> (contentLength prm = length (concat (fetch_body e)) \<longrightarrow>
         (\<forall>k < length (requests (ziplinePartialUpload e prm disk)).
            p_lastchunk (requests (ziplinePartialUpload e prm disk) ! k)
              = (Suc k = (length (concat (fetch_body e)) + CHUNK_SIZE e - 1) div CHUNK_SIZE e)))"
proof -
  let ?out = "ziplinePartialUpload e prm disk"
  let ?reqs = "requests ?out"
  let ?C = "CHUNK_SIZE e"
  let ?xs = "concat (fetch_body e)"
  let ?plan = "plan_all ?C ?xs"
  let ?N = "(length ?xs + ?C - 1) div ?C"
  from upload_chunks [of e prm disk] obtain n where n: "n \<le> length ?plan"
    and parts: "map file_part ?reqs = map fst (take n ?plan)"
    and flags: "map p_lastchunk ?reqs = take n (lastflags (contentLength prm) 0 ?plan)"
    and all: "fetch_ok e \<and> acked e ?reqs \<longrightarrow> n = length ?plan"
    by blast
  have N: "length ?plan = ?N"
    by (rule plan_all_length [OF CHUNK_SIZE_pos])
  have len: "length ?reqs = n"
    using arg_cong [OF parts, of length] n by simp
  have part: "file_part (?reqs ! k) = fst (?plan ! k)" if "k < length ?reqs" for k
    using arg_cong [OF parts, of "\<lambda>l. l ! k"] that len n by simp
  have count: "length ?reqs \<le> ?N"
    using len n N by simp
  have size: "\<forall>k < length ?reqs. length (file_part (?reqs ! k))
                 = (if k < length ?xs div ?C then ?C else length ?xs mod ?C)"
  proof (intro allI impI)
    fix k assume k: "k < length ?reqs"
    with len n have "k < length ?plan" by simp
    from plan_all_size [OF CHUNK_SIZE_pos this] part [OF k]
    show "length (file_part (?reqs ! k)) = (if k < length ?xs div ?C then ?C else length ?xs mod ?C)"
      by simp
  qed
  have whole: "length ?reqs = ?N \<and> concat (map file_part ?reqs) = ?xs
                \<and> (\<forall>k < length ?xs div ?C. length (file_part (?reqs ! k)) = ?C)
                \<and> (length ?xs mod ?C \<noteq> 0 \<longrightarrow> length (file_part (last ?reqs)) = length ?xs mod ?C)"
    if f: "fetch_ok e" and c: "\<forall>k < length ?reqs. continues (server e (take (Suc k) ?reqs))"
  proof -
    from c have "acked e ?reqs" by (simp add: acked_def)
    with f all have nn: "n = length ?plan" by simp
    then have parts': "map file_part ?reqs = map fst ?plan" using parts by simp
    have c1: "length ?reqs = ?N" using len nn N by simp
    have c2: "concat (map file_part ?reqs) = ?xs"
      by (simp add: parts' plan_all_concat)
    have c3: "\<forall>k < length ?xs div ?C. length (file_part (?reqs ! k)) = ?C"
    proof (intro allI impI)
      fix k assume k: "k < length ?xs div ?C"
      have "length ?xs div ?C \<le> ?N"
        by (rule div_le_mono) (use CHUNK_SIZE_pos [of e] in simp)
      with k c1 have "k < length ?reqs" by simp
      with size k show "length (file_part (?reqs ! k)) = ?C" by simp
    qed
    have c4: "length ?xs mod ?C \<noteq> 0 \<longrightarrow> length (file_part (last ?reqs)) = length ?xs mod ?C"
    proof
      assume m: "length ?xs mod ?C \<noteq> 0"
      then have "?xs \<noteq> []" by (metis length_0_conv mod_0)
      then have ne: "?plan \<noteq> []" by (simp add: plan_all_Nil)
      with len nn have ne': "?reqs \<noteq> []" by auto
      have "file_part (last ?reqs) = last (map file_part ?reqs)"
        using ne' by (simp add: last_map)
      also have "\<dots> = fst (last ?plan)"
        using ne by (simp add: parts' last_map)
      finally show "length (file_part (last ?reqs)) = length ?xs mod ?C"
        using plan_all_last_size [OF CHUNK_SIZE_pos m] by simp
    qed
    from c1 c2 c3 c4 show ?thesis by blast
  qed
  have one: "contentLength prm = length ?xs \<longrightarrow>
               (\<forall>k < length ?reqs. p_lastchunk (?reqs ! k) = (Suc k = ?N))"
  proof (intro allI impI)
    fix k assume cl: "contentLength prm = length ?xs" and k: "k < length ?reqs"
    with len n have kp: "k < length ?plan" by simp
    have "p_lastchunk (?reqs ! k) = map p_lastchunk ?reqs ! k"
      using k by simp
    also have "\<dots> = lastflags (contentLength prm) 0 ?plan ! k"
      using k len by (simp add: flags)
    also have "\<dots> = (Suc k = length ?plan)"
      using lastflags_exact [OF CHUNK_SIZE_pos, of "contentLength prm" 0 ?xs k e] cl kp by simp
    finally show "p_lastchunk (?reqs ! k) = (Suc k = ?N)"
      by (simp add: N)
  qed
  from count size whole one show ?thesis by blast
qed

theorem rechunking_of_stream_witness:
  "length (requests (ziplinePartialUpload (relay [[1, 2], [3, 4]] completing_on_last) (declared 6) Map.empty)) = 2
   \<and> concat (map file_part
        (requests (ziplinePartialUpload (relay [[1, 2], [3, 4]] completing_on_last) (declared 6) Map.empty)))
       = [1, 2, 3, 4]
   \<and> fst (ziplinePartialUpload (relay [[1, 2, 3], [4], [5]] completing_on_last) (declared 5) Map.empty)
       = Inr (JObj (Some [''a.bin'']) None None)
   \<and> length (file_part (requests (ziplinePartialUpload (relay [[1, 2, 3], [4], [5]] completing_on_last)
        (declared 5) Map.empty) ! 0)) = 2
   \<and> length (file_part (requests (ziplinePartialUpload (relay [[1, 2, 3], [4], [5]] completing_on_last)
        (declared 5) Map.empty) ! 1)) = 2
   \<and> length (file_part (requests (ziplinePartialUpload (relay [[1, 2, 3], [4], [5]] completing_on_last)
        (declared 5) Map.empty) ! 2)) = 1
   \<and> \<not> p_lastchunk (requests (ziplinePartialUpload (relay [[1, 2, 3], [4], [5]] completing_on_last)
        (declared 5) Map.empty) ! 0)
   \<and> \<not> p_lastchunk (requests (ziplinePartialUpload (relay [[1, 2, 3], [4], [5]] completing_on_last)
        (declared 5) Map.empty) ! 1)
   \<and> p_lastchunk (requests (ziplinePartialUpload (relay [[1, 2, 3], [4], [5]] completing_on_last)
        (declared 5) Map.empty) ! 2)"
proof -
  let ?a = "relay [[1, 2], [3, 4]] completing_on_last"
  let ?ra = "requests (ziplinePartialUpload ?a (declared 6) Map.empty)"
  let ?b = "relay [[1, 2, 3], [4], [5]] completing_on_last"
  let ?rb = "requests (ziplinePartialUpload ?b (declared 5) Map.empty)"
  have fa: "fetch_ok ?a" by (simp add: relay_def)
  have ca: "CHUNK_SIZE ?a = 2" by (simp add: CHUNK_SIZE_def relay_def)
  have la: "concat (fetch_body ?a) = [1, 2, 3, 4]" by (simp add: relay_def)
  have na: "length ?ra = 2" by code_simp
  have a0: "continues (server ?a (take (Suc 0) ?ra))" by code_simp
  have a1: "continues (server ?a (take (Suc 1) ?ra))" by code_simp
  have conta: "\<forall>k < length ?ra. continues (server ?a (take (Suc k) ?ra))"
    using a0 a1 by (simp add: na less_Suc_eq numeral_2_eq_2)
  from rechunking_of_stream [of ?a "declared 6" Map.empty] fa conta
  have A: "concat (map file_part ?ra) = concat (fetch_body ?a)" by blast
  have cb: "CHUNK_SIZE ?b = 2" by (simp add: CHUNK_SIZE_def relay_def)
  have lb: "length (concat (fetch_body ?b)) = 5" by (simp add: relay_def)
  have db: "contentLength (declared 5) = 5" by (simp add: declared_def)
  have nb: "length ?rb = 3" by code_simp
  have rb: "fst (ziplinePartialUpload ?b (declared 5) Map.empty) = Inr (JObj (Some [''a.bin'']) None None)"
    by code_simp
  note th = rechunking_of_stream [of ?b "declared 5" Map.empty, unfolded cb lb db nb]
  from th have "length (file_part (?rb ! 0)) = 2" "length (file_part (?rb ! 1)) = 2"
    "length (file_part (?rb ! 2)) = 1" by simp_all
  moreover from th have "\<not> p_lastchunk (?rb ! 0)" "\<not> p_lastchunk (?rb ! 1)" "p_lastchunk (?rb ! 2)"
    by simp_all
  ultimately show ?thesis using na A la rb by simp
qed

text \<open>
  C4. The claim that the coordinator ends successfully only on a response with a non-empty
  files list does not hold: when the stream is exhausted and every chunk was continued, the
  function returns \<^verbatim>\<open>{ partialSuccess: true }\<close>, which its callers take as success. Here the
  only chunk is answered with a session identifier and no files.
\<close>

theorem returns_without_files_response:
  "fst (ziplinePartialUpload (relay [[1, 2]] accepting) (declared 2) Map.empty)
     = Inr (JObj None None (Some True))
   \<and> length (requests (ziplinePartialUpload (relay [[1, 2]] accepting) (declared 2) Map.empty)) = 1
   \<and> server (relay [[1, 2]] accepting)
        (requests (ziplinePartialUpload (relay [[1, 2]] accepting) (declared 2) Map.empty))
     = Some \<lparr> ok = True, status = 200, parsed = JObj None (Some ''s1'') None \<rparr>"
  by code_simp

text \<open>
  C4, amended. A response with a non-empty files list ends the transfer at once: the function
  returns that response's body and the request so answered is the last one sent, with no
  further chunk staged. The function returns a value in two cases only: the body of such a
  response to the last request, or \<^verbatim>\<open>{ partialSuccess: true }\<close> when the source stream is
  exhausted, that is when the chunks sent make up the whole stream, and every one of them was
  answered by a continuing response. In that second case, after a successful download, it
  does return this value.
\<close>

theorem returns_on_files_or_exhaustion:
  "(\<forall>k res. k < length (requests (ziplinePartialUpload e prm disk))
        \<and> server e (take (Suc k) (requests (ziplinePartialUpload e prm disk))) = Some res
        \<and> ok res \<and> has_files (parsed res) \<longrightarrow>
      fst (ziplinePartialUpload e prm disk) = Inr (parsed res)
      \<and> Suc k = length (requests (ziplinePartialUpload e prm disk)))
   \<and> (\<forall>r. fst (ziplinePartialUpload e prm disk) = Inr r \<longrightarrow>
        (requests (ziplinePartialUpload e prm disk) \<noteq> []
         \<and> (\<exists>res. server e (requests (ziplinePartialUpload e prm disk)) = Some res
                \<and> ok res \<and> has_files (parsed res) \<and> r = parsed res))
        \<or> (r = JObj None None (Some True)
            \<and> (\<forall>k < length (requests (ziplinePartialUpload e prm disk)).
                  continues (server e (take (Suc k) (requests (ziplinePartialUpload e prm disk)))))
            \<and> concat (map file_part (requests (ziplinePartialUpload e prm disk)))
                = concat (fetch_body e)
            \<and> length (requests (ziplinePartialUpload e prm disk))
                = (length (concat (fetch_body e)) + CHUNK_SIZE e - 1) div CHUNK_SIZE e))
   \<and> (fetch_ok e
        \<and> (\<forall>k < length (requests (ziplinePartialUpload e prm disk)).
              continues (server e (take (Suc k) (requests (ziplinePartialUpload e prm disk)))))
       \<longrightarrow> fst (ziplinePartialUpload e prm disk) = Inr (JObj None None (Some True)))
   \<and> draws (snd (snd (ziplinePartialUpload e prm disk)))
        = length (requests (ziplinePartialUpload e prm disk))"
proof (cases "fetch_ok e")
  case False
  then show ?thesis
    by (simp add: upload_not_fetched requests_def session0_fields)
next
  case True
  let ?out = "ziplinePartialUpload e prm disk"
  let ?reqs = "requests ?out"
  let ?plan = "plan_all (CHUNK_SIZE e) (concat (fetch_body e))"
  from upload_trace [OF True, of prm disk] obtain c where
    fin: "fst ?out = finish c"
    and all: "c = Normal () \<Longrightarrow> acked e ?reqs"
    and last: "c \<noteq> Normal () \<Longrightarrow> ?reqs \<noteq> [] \<and> acked e (butlast ?reqs) \<and> verdict (server e ?reqs) = c"
    by blast
  from upload_chunks [of e prm disk] obtain n where
    parts: "map file_part ?reqs = map fst (take n ?plan)"
    and sent_all: "fetch_ok e \<and> acked e ?reqs \<longrightarrow>
            n = length ?plan \<and> fst ?out = Inr (JObj None None (Some True))"
    by blast
  have first: "fst ?out = Inr (parsed res) \<and> Suc k = length ?reqs"
    if k: "k < length ?reqs" and res: "server e (take (Suc k) ?reqs) = Some res"
      and files: "ok res" "has_files (parsed res)" for k res
  proof -
    have v: "verdict (server e (take (Suc k) ?reqs)) = Returned (parsed res)"
      using res files by (simp add: verdict_def)
    then have nc: "\<not> continues (server e (take (Suc k) ?reqs))"
      using verdict_Normal [of "server e (take (Suc k) ?reqs)" "()"] by simp
    have stopped: "c \<noteq> Normal ()"
      using all acked_prefix [OF _ k] nc by auto
    have at_end: "Suc k = length ?reqs"
    proof (rule ccontr)
      assume "Suc k \<noteq> length ?reqs"
      with k have "Suc k < length ?reqs" by simp
      with last [OF stopped] acked_butlast nc show False by blast
    qed
    then have "take (Suc k) ?reqs = ?reqs" by simp
    with last [OF stopped] v have "c = Returned (parsed res)" by simp
    with fin at_end show ?thesis by simp
  qed
  have second: "(?reqs \<noteq> [] \<and> (\<exists>res. server e ?reqs = Some res \<and> ok res \<and> has_files (parsed res)
                    \<and> r = parsed res))
                \<or> (r = JObj None None (Some True)
                    \<and> (\<forall>k < length ?reqs. continues (server e (take (Suc k) ?reqs)))
                    \<and> concat (map file_part ?reqs) = concat (fetch_body e)
                    \<and> length ?reqs
                        = (length (concat (fetch_body e)) + CHUNK_SIZE e - 1) div CHUNK_SIZE e)"
    if r: "fst ?out = Inr r" for r
  proof (cases c)
    case (Normal u)
    with all have ack: "acked e ?reqs" by simp
    with True sent_all have nn: "n = length ?plan" by simp
    with parts have p': "map file_part ?reqs = map fst ?plan" by simp
    then have whole: "concat (map file_part ?reqs) = concat (fetch_body e)"
      by (simp add: plan_all_concat)
    have "length ?reqs = length ?plan"
      using arg_cong [OF p', of length] by simp
    then have cnt: "length ?reqs
                 = (length (concat (fetch_body e)) + CHUNK_SIZE e - 1) div CHUNK_SIZE e"
      by (simp add: plan_all_length [OF CHUNK_SIZE_pos])
    from r fin Normal have "r = JObj None None (Some True)" by simp
    with ack whole cnt show ?thesis by (simp add: acked_def)
  next
    case (Returned r')
    with r fin have rr: "r' = r" by simp
    from last Returned rr have "?reqs \<noteq> []" "verdict (server e ?reqs) = Returned r" by simp_all
    then show ?thesis by (auto simp: verdict_Returned)
  next
    case (Thrown err)
    with r fin show ?thesis by simp
  qed
  have third: "fst ?out = Inr (JObj None None (Some True))"
    if "\<forall>k < length ?reqs. continues (server e (take (Suc k) ?reqs))"
  proof -
    from that have "acked e ?reqs" by (simp add: acked_def)
    with True sent_all show ?thesis by simp
  qed
  from first second third upload_store [of e prm disk] show ?thesis by blast
qed

theorem returns_on_files_or_exhaustion_witness:
  "fst (ziplinePartialUpload (relay [[1, 2], [3, 4], [5, 6]] completing_second) (declared 6) Map.empty)
     = Inr (JObj (Some [''a.bin'']) None None)
   \<and> length (requests (ziplinePartialUpload (relay [[1, 2], [3, 4], [5, 6]] completing_second)
         (declared 6) Map.empty)) = 2
   \<and> draws (snd (snd (ziplinePartialUpload (relay [[1, 2], [3, 4], [5, 6]] completing_second)
         (declared 6) Map.empty))) = 2
   \<and> fst (ziplinePartialUpload (relay [[1, 2, 3]] accepting) (declared 3) Map.empty)
     = Inr (JObj None None (Some True))
   \<and> concat (map file_part (requests (ziplinePartialUpload (relay [[1, 2, 3]] accepting)
         (declared 3) Map.empty))) = [1, 2, 3]"
proof -
  let ?e = "relay [[1, 2], [3, 4], [5, 6]] completing_second"
  let ?out = "ziplinePartialUpload ?e (declared 6) Map.empty"
  let ?res = "\<lparr> ok = True, status = 200, parsed = JObj (Some [''a.bin'']) None None \<rparr>"
  have a: "1 < length (requests ?out)" by code_simp
  have b: "server ?e (take (Suc 1) (requests ?out)) = Some ?res" by code_simp
  have c: "ok ?res" "has_files (parsed ?res)" by (simp_all add: has_files_def)
  from returns_on_files_or_exhaustion [of ?e "declared 6" Map.empty] a b c
  have "fst ?out = Inr (parsed ?res) \<and> Suc 1 = length (requests ?out)" by blast
  moreover
  from returns_on_files_or_exhaustion [of ?e "declared 6" Map.empty]
  have "draws (snd (snd ?out)) = length (requests ?out)" by blast
  moreover
  let ?f = "relay [[1, 2, 3]] accepting"
  let ?outf = "ziplinePartialUpload ?f (declared 3) Map.empty"
  have r: "fst ?outf = Inr (JObj None None (Some True))" by code_simp
  have nf: "\<not> has_files (JObj None None (Some True))" by (simp add: has_files_def)
  have body: "concat (fetch_body ?f) = [1, 2, 3]" by (simp add: relay_def)
  from returns_on_files_or_exhaustion
         [of ?f "declared 3" Map.empty, THEN conjunct2, THEN conjunct1, rule_format, OF r] nf
  have "concat (map file_part (requests ?outf)) = concat (fetch_body ?f)" by auto
  ultimately show ?thesis using r body by simp
qed

text \<open>
  C5. The first chunk request carries no session identifier, but the identifier on later
  requests is not fixed by the first assignment: the code overwrites
  \<^verbatim>\<open>partialIdentifier\<close> with every non-empty identifier a response carries. Here the
  server answers the first chunk with \<^verbatim>\<open>s1\<close> and the second with \<^verbatim>\<open>s2\<close>, and the
  third request carries \<^verbatim>\<open>s2\<close>.
\<close>

theorem identifier_changes_on_reassignment:
  "map p_identifier
     (requests (ziplinePartialUpload (relay [[1, 2], [3, 4], [5, 6]] reassigning) (declared 6) Map.empty))
   = [None, Some ''s1'', Some ''s2'']"
  by code_simp

text \<open>
  C5, amended. The first chunk request carries no session identifier. Every later request
  carries the identifier that the response to the request before it assigned (a non-empty
  \<^verbatim>\<open>partialIdentifier\<close>), and when that response assigned none, the same identifier as the
  request before it. So an identifier, once assigned, stays on every later request for as
  long as no response assigns another.
\<close>

theorem identifier_follows_latest_assignment:
  "(requests (ziplinePartialUpload e prm disk) \<noteq> [] \<longrightarrow>
      p_identifier (requests (ziplinePartialUpload e prm disk) ! 0) = None)
   \<and> (\<forall>k res. Suc k < length (requests (ziplinePartialUpload e prm disk))
         \<and> server e (take (Suc k) (requests (ziplinePartialUpload e prm disk))) = Some res \<longrightarrow>
         p_identifier (requests (ziplinePartialUpload e prm disk) ! Suc k) =
           (if assigned_identifier (parsed res) = None
            then p_identifier (requests (ziplinePartialUpload e prm disk) ! k)
            else assigned_identifier (parsed res)))"
  using upload_id_rule [of e prm disk] by (simp add: id_rule_def)

theorem identifier_follows_latest_assignment_witness:
  "p_identifier (requests (ziplinePartialUpload (relay [[1, 2], [3, 4], [5, 6]] naming_once)
       (declared 6) Map.empty) ! 0) = None
   \<and> p_identifier (requests (ziplinePartialUpload (relay [[1, 2], [3, 4], [5, 6]] naming_once)
       (declared 6) Map.empty) ! 1) = Some ''s1''
   \<and> p_identifier (requests (ziplinePartialUpload (relay [[1, 2], [3, 4], [5, 6]] naming_once)
       (declared 6) Map.empty) ! 2) = Some ''s1''"
proof -
  let ?e = "relay [[1, 2], [3, 4], [5, 6]] naming_once"
  let ?out = "ziplinePartialUpload ?e (declared 6) Map.empty"
  have n: "length (requests ?out) = 3" by code_simp
  have r1: "server ?e (take (Suc 0) (requests ?out))
              = Some \<lparr> ok = True, status = 200, parsed = JObj None (Some ''s1'') None \<rparr>"
    by code_simp
  have r2: "server ?e (take (Suc 1) (requests ?out))
              = Some \<lparr> ok = True, status = 200, parsed = JObj None None (Some True) \<rparr>"
    by code_simp
  have a1: "assigned_identifier (JObj None (Some ''s1'') None) = Some ''s1''"
    and a2: "assigned_identifier (JObj None None (Some True)) = None"
    by (simp_all add: assigned_identifier_def truthy_def)
  note th = identifier_follows_latest_assignment [of ?e "declared 6" Map.empty]
  from th n have i0: "p_identifier (requests ?out ! 0) = None" by auto
  from th n r1 a1 have i1: "p_identifier (requests ?out ! Suc 0) = Some ''s1''"
    by (auto simp del: One_nat_def)
  from th n r2 a2 have "p_identifier (requests ?out ! Suc 1) = p_identifier (requests ?out ! 1)"
    by auto
  with i0 i1 show ?thesis by (simp add: numeral_2_eq_2)
qed

text \<open>
  C6. A chunk attempt makes its request with the counter not yet advanced. If the attempt
  falls through to the next chunk, the answer to that request was one that continues the
  session and the counter has grown by the chunk's size; if it throws or returns, the counter
  is what it was.
\<close>

theorem uploadedBytes_advances_after_acknowledgement:
  assumes "attempt e prm dn nacc buffer sending s = (c, s')"
  shows "range_start (last (sent s')) = uploadedBytes s
         \<and> (c = Normal () \<longrightarrow>
               uploadedBytes s' = uploadedBytes s + length sending \<and> continues (server e (sent s')))
         \<and> (c \<noteq> Normal () \<longrightarrow> uploadedBytes s' = uploadedBytes s)"
proof -
  let ?f = "buffer = [] \<and> nacc = 0 \<and> dn"
  from assms have c: "c = fst (attempt e prm ?f 0 [] sending s)"
    and s': "s' = snd (attempt e prm ?f 0 [] sending s)"
    by (simp_all add: attempt_general [of e prm dn nacc buffer])
  show ?thesis
    unfolding s' c
    by (simp add: attempt_sent attempt_uploaded chunk_request_fields attempt_ctl verdict_Normal)
qed

theorem uploadedBytes_advances_after_acknowledgement_witness:
  "fst (attempt (relay [[1, 2], [3, 4]] accepting) (declared 4) False 0 [3, 4] [1, 2] (session0 Map.empty))
     = Normal ()
   \<and> uploadedBytes (snd (attempt (relay [[1, 2], [3, 4]] accepting) (declared 4) False 0 [3, 4] [1, 2]
        (session0 Map.empty))) = 2
   \<and> fst (attempt (relay [[1, 2], [3, 4]] refusing_all) (declared 4) False 0 [3, 4] [1, 2] (session0 Map.empty))
     = Thrown (ChunkTransferError 500 (JOther ''down''))
   \<and> uploadedBytes (snd (attempt (relay [[1, 2], [3, 4]] refusing_all) (declared 4) False 0 [3, 4] [1, 2]
        (session0 Map.empty))) = 0"
proof -
  let ?a = "attempt (relay [[1, 2], [3, 4]] accepting) (declared 4) False 0 [3, 4] [1, 2] (session0 Map.empty)"
  let ?b = "attempt (relay [[1, 2], [3, 4]] refusing_all) (declared 4) False 0 [3, 4] [1, 2] (session0 Map.empty)"
  have a: "fst ?a = Normal ()" by code_simp
  have b: "fst ?b = Thrown (ChunkTransferError 500 (JOther ''down''))" by code_simp
  have u: "uploadedBytes (session0 Map.empty) = 0" by (simp add: session0_def)
  have pa: "?a = (fst ?a, snd ?a)" and pb: "?b = (fst ?b, snd ?b)" by simp_all
  from uploadedBytes_advances_after_acknowledgement [OF pa] a u
  have "uploadedBytes (snd ?a) = 2" by simp
  moreover
  from uploadedBytes_advances_after_acknowledgement [OF pb] b u
  have "uploadedBytes (snd ?b) = 0" by simp
  ultimately show ?thesis using a b by simp
qed

text \<open>
  C7. The file that a chunk attempt stages is gone from the transient store when the attempt
  ends, however it ends; and when \<^verbatim>\<open>ziplinePartialUpload\<close> has returned or thrown, the store
  is the one it started on without any of the staging paths drawn, one per chunk request. The
  operations on the store themselves are taken to succeed.
\<close>

theorem staged_chunks_are_released:
  "fs (snd (attempt e prm dn nacc buffer sending s)) (tmpname e (draws s)) = None
   \<and> fs (snd (snd (ziplinePartialUpload e prm disk))) =
       (\<lambda>p. if (\<exists>k < draws (snd (snd (ziplinePartialUpload e prm disk))). p = tmpname e k)
            then None else disk p)
   \<and> draws (snd (snd (ziplinePartialUpload e prm disk))) = length (requests (ziplinePartialUpload e prm disk))"
  using upload_store [of e prm disk]
  by (simp add: attempt_general [of e prm dn nacc buffer] attempt_fs)

theorem staged_chunks_are_released_witness:
  "fst (ziplinePartialUpload (relay [[1, 2], [3, 4], [5, 6]] refusing_second) (declared 6) Map.empty)
     = Inl PartialFailure
   \<and> fs (snd (snd (ziplinePartialUpload (relay [[1, 2], [3, 4], [5, 6]] refusing_second)
          (declared 6) Map.empty))) (numbered 0) = None
   \<and> fs (snd (snd (ziplinePartialUpload (relay [[1, 2], [3, 4], [5, 6]] refusing_second)
          (declared 6) Map.empty))) (numbered 1) = None"
proof -
  let ?e = "relay [[1, 2], [3, 4], [5, 6]] refusing_second"
  let ?out = "ziplinePartialUpload ?e (declared 6) Map.empty"
  have thrown: "fst ?out = Inl PartialFailure" by code_simp
  have name: "tmpname ?e = numbered" by (simp add: relay_def)
  have two: "draws (snd (snd ?out)) = 2" by code_simp
  from staged_chunks_are_released [of ?e "declared 6" False 0 "[]" "[]" "session0 Map.empty" Map.empty]
  have st: "fs (snd (snd ?out)) =
              (\<lambda>p. if (\<exists>k < draws (snd (snd ?out)). p = tmpname ?e k) then None else Map.empty p)"
    by simp
  have "fs (snd (snd ?out)) (numbered 0) = None" "fs (snd (snd ?out)) (numbered 1) = None"
    by (simp_all add: st name two)
  with thrown show ?thesis by simp
qed

text \<open>
  C8. If the body of a chunk response signals \<^verbatim>\<open>partialSuccess\<close> false and carries no
  non-empty files list, the transfer ends by throwing the partial-failure error, and the chunk
  so answered is the last one sent.
\<close>

theorem partial_failure_aborts_transfer:
  assumes k: "k < length (requests (ziplinePartialUpload e prm disk))"
    and res: "server e (take (Suc k) (requests (ziplinePartialUpload e prm disk))) = Some res"
    and failed: "ok res" "\<not> has_files (parsed res)" "partial_failed (parsed res)"
  shows "fst (ziplinePartialUpload e prm disk) = Inl PartialFailure
         \<and> Suc k = length (requests (ziplinePartialUpload e prm disk))"
proof -
  let ?reqs = "requests (ziplinePartialUpload e prm disk)"
  have v: "verdict (server e (take (Suc k) ?reqs)) = Thrown PartialFailure"
    using res failed by (simp add: verdict_def)
  then have nc: "\<not> continues (server e (take (Suc k) ?reqs))"
    using verdict_Normal [of "server e (take (Suc k) ?reqs)" "()"] by simp
  have fetched: "fetch_ok e"
  proof (rule ccontr)
    assume "\<not> fetch_ok e"
    from upload_no_fetch_requests [OF this, of prm disk] k show False by simp
  qed
  from upload_trace [OF fetched, of prm disk] obtain c where
    fin: "fst (ziplinePartialUpload e prm disk) = finish c"
    and all: "c = Normal () \<Longrightarrow> acked e ?reqs"
    and last: "c \<noteq> Normal () \<Longrightarrow> ?reqs \<noteq> [] \<and> acked e (butlast ?reqs) \<and> verdict (server e ?reqs) = c"
    by blast
  have stopped: "c \<noteq> Normal ()"
    using all acked_prefix [OF _ k] nc by auto
  have at_end: "Suc k = length ?reqs"
  proof (rule ccontr)
    assume "Suc k \<noteq> length ?reqs"
    with k have "Suc k < length ?reqs" by simp
    with last [OF stopped] acked_butlast nc show False by blast
  qed
  then have "take (Suc k) ?reqs = ?reqs" by simp
  with last [OF stopped] v have "c = Thrown PartialFailure" by simp
  with fin at_end show ?thesis by simp
qed


theorem partial_failure_aborts_transfer_witness:
  "fst (ziplinePartialUpload (relay [[1, 2], [3, 4], [5, 6]] refusing_second) (declared 6) Map.empty)
     = Inl PartialFailure
   \<and> length (requests (ziplinePartialUpload (relay [[1, 2], [3, 4], [5, 6]] refusing_second)
         (declared 6) Map.empty)) = 2"
proof -
  let ?e = "relay [[1, 2], [3, 4], [5, 6]] refusing_second"
  let ?res = "\<lparr> ok = True, status = 200, parsed = JObj None None (Some False) \<rparr>"
  have a: "1 < length (requests (ziplinePartialUpload ?e (declared 6) Map.empty))"
    by code_simp
  have b: "server ?e (take (Suc 1) (requests (ziplinePartialUpload ?e (declared 6) Map.empty)))
             = Some ?res"
    by code_simp
  have c: "ok ?res" "\<not> has_files (parsed ?res)" "partial_failed (parsed ?res)"
    by (simp_all add: has_files_def partial_failed_def)
  from partial_failure_aborts_transfer [OF a b c] show ?thesis by simp
qed

text \<open>
  C9. The bound of twice the chunk size does not hold for every source stream, for two
  reasons. A fragment is appended to \<^verbatim>\<open>accumulatedChunks\<close> whole, whatever its size: with
  a chunk size of 2, a single fragment of 5 bytes makes the buffers hold 5 bytes. And
  \<^verbatim>\<open>Buffer.concat\<close> copies what has accumulated while \<^verbatim>\<open>accumulatedChunks\<close> still
  holds it until the next line: with fragments of 1 and 2 bytes, none longer than the chunk
  size 2, the two together hold 6 bytes at that point.
\<close>

theorem buffers_exceed_twice_chunk_size:
  "held (fst (snd (ziplinePartialUpload (relay [[1, 2, 3, 4, 5]] accepting) (declared 5) Map.empty))) ! 0
     = (False, 5)
   \<and> 2 * CHUNK_SIZE (relay [[1, 2, 3, 4, 5]] accepting) = 4
   \<and> held (fst (snd (ziplinePartialUpload (relay [[1], [2, 3]] accepting) (declared 3) Map.empty))) ! 2
     = (True, 6)
   \<and> 2 * CHUNK_SIZE (relay [[1], [2, 3]] accepting) = 4"
  by code_simp

text \<open>
  C9, amended. When no fragment of the source stream is longer than the chunk size \<open>C\<close>, the
  unconsumed bytes held in \<^verbatim>\<open>accumulatedChunks\<close> and the working buffer together,
  observed after every statement of the accumulate and slice loops that changes either, never
  exceed \<open>4 * C\<close>, and never exceed \<open>2 * C\<close> except at the one point between
  \<^verbatim>\<open>Buffer.concat\<close> and the reset of \<^verbatim>\<open>accumulatedChunks\<close> on the next line.
\<close>

theorem buffers_bounded_for_small_fragments:
  assumes "\<forall>v \<in> set (fetch_body e). length v \<le> CHUNK_SIZE e"
  shows "\<forall>p \<in> set (held (fst (snd (ziplinePartialUpload e prm disk)))).
           snd p \<le> 4 * CHUNK_SIZE e \<and> (fst p \<or> snd p \<le> 2 * CHUNK_SIZE e)"
  using upload_held [OF assms, of prm disk] by auto

theorem buffers_bounded_for_small_fragments_witness:
  "list_all (\<lambda>p. snd p \<le> 8 \<and> (fst p \<or> snd p \<le> 4))
     (held (fst (snd (ziplinePartialUpload (relay [[1, 2], [3], [4, 5]] accepting) (declared 5)
        Map.empty))))
   \<and> held (fst (snd (ziplinePartialUpload (relay [[1, 2], [3], [4, 5]] accepting) (declared 5)
        Map.empty))) ! 6 = (True, 6)"
proof -
  let ?e = "relay [[1, 2], [3], [4, 5]] accepting"
  have c: "CHUNK_SIZE ?e = 2" by (simp add: CHUNK_SIZE_def relay_def)
  have small: "\<forall>v \<in> set (fetch_body ?e). length v \<le> CHUNK_SIZE ?e"
    by (simp add: c) (simp add: relay_def)
  have peak: "held (fst (snd (ziplinePartialUpload ?e (declared 5) Map.empty))) ! 6 = (True, 6)"
    by code_simp
  from buffers_bounded_for_small_fragments [OF small, of "declared 5" Map.empty] peak
  show ?thesis by (simp add: c list_all_iff)
qed

text \<open>
  C10. When a progress callback is passed, it is called once for every chunk request whose
  response continues the session, in order, with the byte count after that chunk (the request's
  start offset plus its size) and the declared \<^verbatim>\<open>contentLength\<close>, and for no other request:
  every request but the last was so continued, and the last is reported only if its response
  continues as well. When the transfer returns a non-empty files list, the response to the last
  request is not a continuing one, so the chunk that completed the transfer is not reported; in
  the instance below the only report is 2 of the stream's 4 bytes.
\<close>

theorem progress_reports_continued_chunks:
  assumes "onProgress prm"
  shows "progress (snd (snd (ziplinePartialUpload e prm disk))) =
           map (\<lambda>q. (range_start q + length (file_part q), contentLength prm))
             (if continues (server e (requests (ziplinePartialUpload e prm disk)))
              then requests (ziplinePartialUpload e prm disk)
              else butlast (requests (ziplinePartialUpload e prm disk)))
         \<and> (\<forall>k. Suc k < length (requests (ziplinePartialUpload e prm disk)) \<longrightarrow>
                continues (server e (take (Suc k) (requests (ziplinePartialUpload e prm disk)))))
         \<and> (\<forall>r. fst (ziplinePartialUpload e prm disk) = Inr r \<and> has_files r \<longrightarrow>
                requests (ziplinePartialUpload e prm disk) \<noteq> [] \<and>
                \<not> continues (server e (requests (ziplinePartialUpload e prm disk))))"
proof (cases "fetch_ok e")
  case False
  then show ?thesis
    by (simp add: upload_not_fetched requests_def session0_fields)
next
  case True
  let ?out = "ziplinePartialUpload e prm disk"
  let ?g = "\<lambda>q. (range_start q + length (file_part q), contentLength prm)"
  from upload_as_plan [OF True, of prm disk] obtain c where
    run: "send_all e prm (chunk_plan e) (session0 disk) = (c, snd (snd ?out))"
    and fin: "fst ?out = finish c" by blast
  have tr: "if c = Normal () then acked e (requests ?out)
            else requests ?out \<noteq> [] \<and> acked e (butlast (requests ?out))
                 \<and> verdict (server e (requests ?out)) = c"
    using send_all_trace [OF run acked_session0] by (simp add: requests_def)
  have pr: "progress (snd (snd ?out)) = map ?g (if c = Normal () then requests ?out else butlast (requests ?out))"
    using upload_progress [OF assms run] by (simp add: session0_fields requests_def)
  have sel: "(if c = Normal () then requests ?out else butlast (requests ?out))
             = (if continues (server e (requests ?out)) then requests ?out else butlast (requests ?out))"
  proof (cases "c = Normal ()")
    case True
    with tr have "acked e (requests ?out)" by simp
    from acked_last [OF this] True show ?thesis by (cases "requests ?out = []") auto
  next
    case False
    with tr have "verdict (server e (requests ?out)) \<noteq> Normal ()" by simp
    then have "\<not> continues (server e (requests ?out))" by (simp add: verdict_Normal)
    with False show ?thesis by simp
  qed
  have before: "\<forall>k. Suc k < length (requests ?out) \<longrightarrow> continues (server e (take (Suc k) (requests ?out)))"
    using tr acked_upto [of e "requests ?out"] by (auto split: if_splits)
  have files: "\<forall>r. fst ?out = Inr r \<and> has_files r \<longrightarrow>
                 requests ?out \<noteq> [] \<and> \<not> continues (server e (requests ?out))"
  proof (intro allI impI)
    fix r assume a: "fst ?out = Inr r \<and> has_files r"
    with fin have "finish c = Inr r" by simp
    from finish_files [OF this] a have "c = Returned r" by simp
    with tr have "requests ?out \<noteq> []" "verdict (server e (requests ?out)) = Returned r" by simp_all
    then show "requests ?out \<noteq> [] \<and> \<not> continues (server e (requests ?out))"
      using verdict_Normal [of "server e (requests ?out)" "()"] by simp
  qed
  from pr sel before files show ?thesis by simp
qed

theorem progress_reports_continued_chunks_witness:
  "progress (snd (snd (ziplinePartialUpload (relay [[1, 2, 3], [4]] completing_second) (declared 4) Map.empty)))
     = [(2, 4)]
   \<and> fst (ziplinePartialUpload (relay [[1, 2, 3], [4]] completing_second) (declared 4) Map.empty)
     = Inr (JObj (Some [''a.bin'']) None None)
   \<and> length (concat (fetch_body (relay [[1, 2, 3], [4]] completing_second))) = 4"
proof -
  let ?e = "relay [[1, 2, 3], [4]] completing_second"
  let ?out = "ziplinePartialUpload ?e (declared 4) Map.empty"
  have cb: "onProgress (declared 4)" by (simp add: declared_def)
  have res: "fst ?out = Inr (JObj (Some [''a.bin'']) None None)" by code_simp
  have hf: "has_files (JObj (Some [''a.bin'']) None None)" by (simp add: has_files_def)
  have reqs: "map (\<lambda>q. (range_start q + length (file_part q), contentLength (declared 4)))
                (butlast (requests ?out)) = [(2, 4)]" by code_simp
  from progress_reports_continued_chunks [OF cb, of ?e Map.empty] res hf
  have "\<not> continues (server ?e (requests ?out))" by blast
  with progress_reports_continued_chunks [OF cb, of ?e Map.empty] reqs
  have "progress (snd (snd ?out)) = [(2, 4)]" by simp
  with res show ?thesis by (simp add: relay_def)
qed

end
